theory Spec2Isabelle
  imports Main "HOL-Library.AList"
begin

section \<open>Event kinds, listeners and the observable trace\<close>

text \<open>
  The keys of the interface \<open>AppEvents\<close> (core/EventBus.ts): the closed set of kinds the
  typed methods \<open>emitTyped\<close>, \<open>onTyped\<close>, \<open>onceTyped\<close> and \<open>offTyped\<close> accept.
\<close>

datatype appEvent =
    AppStart | AppStop | AppError
  | TerminalExit | TerminalKey | TerminalResize
  | ConfigLoaded | ConfigError
  | EngineStart | EngineStop | EngineError
  | TradingSignal | TradingOrder | TradingPosition

text \<open>
  Event names of the underlying emitter: the three names the bus constructor subscribes
  to for its own bookkeeping (\<open>'error'\<close>, \<open>'newListener'\<close>, \<open>'removeListener'\<close>) and the
  application kinds.
\<close>

datatype event = EvError | EvNewListener | EvRemoveListener | EvApp appEvent

text \<open>
  What a \<open>throw\<close> throws: an \<open>Error\<close> object, known by its message, or \<open>null\<close> or
  \<open>undefined\<close>.
\<close>

datatype thrown = ErrorObject string | Null | Undefined

text \<open>\<open>String(error)\<close> for a value that is not an \<open>Error\<close>, and the message of one that is.\<close>

fun messageOf :: "thrown \<Rightarrow> string" where
  "messageOf (ErrorObject e) = e"
| "messageOf Null = ''null''"
| "messageOf Undefined = ''undefined''"

text \<open>
  A callback outside this repository is known only by an identity and by whether a call
  of it returns, throws an \<open>Error\<close> with some message, or throws \<open>null\<close>.
\<close>

datatype behaviour = Returns | Throws string | ThrowsNull

text \<open>
  The callbacks that get registered on the bus: the three arrow functions of
  \<open>EventBus.setupErrorHandling\<close>, the bound handlers of \<open>DTraderCrypto\<close> and of
  \<open>TerminalManager\<close>, and callbacks of other subscribers.
\<close>

datatype listener =
    BusOnError | BusOnNewListener | BusOnRemoveListener
  | AppHandleAppStart | AppHandleAppStop | AppHandleAppError | AppHandleExit
  | AppHandleTerminalKey | AppHandleTerminalResize
  | TmHandleAppStart | TmHandleAppStop | TmHandleExit
  | External nat behaviour

text \<open>
  An entry of a listener array: the function itself (\<open>on\<close>), or the wrapper \<open>once\<close>
  builds around it; wrappers are distinct objects, told apart by a number.
\<close>

datatype registration = On listener | Once nat listener

fun listener_of :: "registration \<Rightarrow> listener" where
  "listener_of (On l) = l"
| "listener_of (Once w l) = l"

datatype arg = ANum int | AStr string | AErr string | AEvent event | AListener listener

text \<open>How control leaves a piece of code: normally, by a thrown error, or by \<open>process.exit\<close>.\<close>

datatype flow = Normal | Thrown thrown | Exited int

datatype level = Debug | Info | Warn | Err

text \<open>
  The calls of the module loggers (\<open>appLogger\<close>, \<open>terminalLogger\<close>), one name for each
  place in the source, and what is written to the terminal, one name for each drawing
  method; the texts themselves (in Russian in the source) play no part.
\<close>

datatype logEntry =
    AppCreated | AppListenersSetUp | AppProcessHandlersSetUp
  | AppStarting | AppStartFailed | AppStarted | AppStopped | AppFailed
  | AppHandlingExit | AppKey | AppResized
  | AppAlreadyStopped | AppShutdownBegins | AppShutdownDone
  | AppSigint | AppSigterm | AppUncaughtException | AppUnhandledRejection
  | TmCreated | TmSetUp | TmListenersSetUp
  | TmAppStart | TmInitialized | TmAppStop | TmExitSignal
  | TmWelcomeShown | TmKeyListenerStarted | TmKeyListenerStopped
  | TmKeyPressed | TmExitCommand | TmHandleKeyPressFailed | TmResized
  | TmShowingShutdownMessage | TmShutdownNotInitialized | TmShutdownBegins | TmExitingProcess
  | TmErrorShown | TmInfoShown

datatype errorTitle = UnhandledError | UnhandledPromiseRejection | ApplicationError

datatype infoText = StartingText | StartedText | StoppingText | ResizedText int int

datatype screen =
    Header | SystemInfo | Instructions | StatusLine
  | ShutdownMessage | Goodbye
  | ErrorLine errorTitle | ErrorDetails | InfoLine infoText | KeyLine string

datatype termCall = Clear | NoFormat | OnResize | OnKey

datatype logName = LnInitialized | LnStats | LnCleanup | LnBusError | LnEvent event

text \<open>
  What a run leaves behind, in order: the calls of the bus logger, of the module loggers
  and of terminal-kit, timers set, the process exit, and (as marks) each publish, each
  call of a listener and each \<open>removeAllListeners()\<close>.
\<close>

datatype action =
    BusLogEvent logName nat
  | BusLogError logName string
  | BusLogListenerAdd event nat
  | BusLogListenerRemove event int
  | MaxListenersWarning event nat
  | Publish appEvent "arg list"
  | Invoke listener "arg list"
  | RemoveAllListeners
  | Log level logEntry
  | TermCall termCall
  | TermWrite screen
  | TermGrabInput bool
  | SetTimeout nat
  | ProcessExit int

record world =
  events :: "(event \<times> registration list) list"
  warned :: "event list"
  maxListeners :: nat
  enableLogging :: bool
  emitWrapped :: bool
  nextWrapper :: nat
  fired :: "nat list"
  isRunning :: bool
  environment :: string
  errorFiles :: bool
  colors :: bool
  grabInput :: bool
  isInitialized :: bool
  isInputGrabbed :: bool
  keyHandlers :: nat
  timers :: "nat list"
  flow :: flow
  trace :: "action list"

section \<open>Control: sequencing, throw, catch, exit\<close>

definition effect :: "action \<Rightarrow> world \<Rightarrow> world" where
  "effect a s = s\<lparr>trace := trace s @ [a]\<rparr>"

text \<open>Statements in sequence: the next one runs only if the previous one completed.\<close>

fun seq :: "(world \<Rightarrow> world) list \<Rightarrow> world \<Rightarrow> world" where
  "seq [] s = s"
| "seq (f # fs) s = (let s' = f s in if flow s' = Normal then seq fs s' else s')"

text \<open>\<open>throw v\<close>, and \<open>throw new Error(e)\<close>.\<close>

definition throwValue :: "thrown \<Rightarrow> world \<Rightarrow> world" where
  "throwValue v s = s\<lparr>flow := Thrown v\<rparr>"

definition throw :: "string \<Rightarrow> world \<Rightarrow> world" where
  "throw e s = throwValue (ErrorObject e) s"

text \<open>\<open>try { body } catch (e) { handler }\<close>; \<open>process.exit\<close> is not catchable.\<close>

definition tryCatch :: "(world \<Rightarrow> world) \<Rightarrow> (thrown \<Rightarrow> world \<Rightarrow> world) \<Rightarrow> world \<Rightarrow> world" where
  "tryCatch body handler s =
     (let s' = body s in
      case flow s' of Thrown e \<Rightarrow> handler e (s'\<lparr>flow := Normal\<rparr>) | _ \<Rightarrow> s')"

definition processExit :: "int \<Rightarrow> world \<Rightarrow> world" where
  "processExit code s = (effect (ProcessExit code) s)\<lparr>flow := Exited code\<rparr>"

section \<open>The emitter underneath the bus\<close>

text \<open>
  \<open>EventBus extends EventEmitter\<close>: the listener table and \<open>emit\<close>, \<open>on\<close>, \<open>once\<close>,
  \<open>off\<close>, \<open>removeAllListeners\<close>, \<open>listenerCount\<close> and \<open>eventNames\<close> are those of the
  Node.js \<open>events\<close> module, which is not part of the repository. They are modelled after
  its documented behaviour: listeners are called synchronously in registration order on
  a copy of the array; an error thrown by a listener leaves \<open>emit\<close>; \<open>'newListener'\<close> is
  emitted before a listener is added and \<open>'removeListener'\<close> after one is removed;
  \<open>off\<close> removes the most recently added matching entry; a listener count above the
  limit only prints a warning, once for an array.

  A call of a registered function is made through the parameter \<open>call\<close>, so that the
  definitions below are not recursive; \<open>invoke\<close> closes the loop, with the depth of
  nested listener calls as its bound.
\<close>

type_synonym invoker = "registration \<Rightarrow> event \<Rightarrow> arg list \<Rightarrow> world \<Rightarrow> world"

definition listeners_of :: "event \<Rightarrow> world \<Rightarrow> registration list" where
  "listeners_of ev s = (case map_of (events s) ev of None \<Rightarrow> [] | Some rs \<Rightarrow> rs)"

definition listenerCount :: "event \<Rightarrow> world \<Rightarrow> nat" where
  "listenerCount ev s = length (listeners_of ev s)"

definition eventNames :: "world \<Rightarrow> event list" where
  "eventNames s = map fst (events s)"

text \<open>
  Writing the array of a name back: an empty array deletes the key, a new key goes last.
  The \<open>warned\<close> mark belongs to the array object, which exists only while there are two
  listeners or more.
\<close>

definition setListeners :: "event \<Rightarrow> registration list \<Rightarrow> world \<Rightarrow> world" where
  "setListeners ev rs s =
     s\<lparr>events := (if rs = [] then AList.delete ev (events s) else AList.update ev rs (events s)),
       warned := (if length rs \<le> 1 then removeAll ev (warned s) else warned s)\<rparr>"

fun dispatch :: "invoker \<Rightarrow> event \<Rightarrow> arg list \<Rightarrow> registration list \<Rightarrow> world \<Rightarrow> world" where
  "dispatch call ev args [] s = s"
| "dispatch call ev args (r # rs) s =
     (let s' = call r ev args s in
      if flow s' = Normal then dispatch call ev args rs s' else s')"

text \<open>\<open>EventEmitter.prototype.emit\<close>.\<close>

definition originalEmit :: "invoker \<Rightarrow> event \<Rightarrow> arg list \<Rightarrow> world \<Rightarrow> bool \<times> world" where
  "originalEmit call ev args s =
     (if ev = EvError \<and> listeners_of EvError s = [] then (False, throw ''Unhandled error'' s)
      else case listeners_of ev s of
             [] \<Rightarrow> (False, s)
           | r # rs \<Rightarrow> (True, dispatch call ev args (r # rs) s))"

text \<open>
  \<open>this.emit\<close>: once \<open>setupEventLogging\<close> has replaced the method, every emit (also the
  emitter's own \<open>'newListener'\<close> and \<open>'removeListener'\<close>) logs first.
\<close>

definition emit :: "invoker \<Rightarrow> event \<Rightarrow> arg list \<Rightarrow> world \<Rightarrow> bool \<times> world" where
  "emit call ev args s =
     (if emitWrapped s
      then originalEmit call ev args (effect (BusLogEvent (LnEvent ev) (listenerCount ev s)) s)
      else originalEmit call ev args s)"

definition addListener :: "invoker \<Rightarrow> event \<Rightarrow> registration \<Rightarrow> world \<Rightarrow> world" where
  "addListener call ev r s =
     (let s1 = (if listeners_of EvNewListener s \<noteq> []
                then snd (emit call EvNewListener [AEvent ev, AListener (listener_of r)] s)
                else s)
      in if flow s1 \<noteq> Normal then s1
         else let rs = listeners_of ev s1 @ [r];
                  s2 = setListeners ev rs s1
              in if 0 < maxListeners s2 \<and> maxListeners s2 < length rs \<and> ev \<notin> set (warned s2)
                 then effect (MaxListenersWarning ev (length rs)) (s2\<lparr>warned := ev # warned s2\<rparr>)
                 else s2)"

definition on :: "invoker \<Rightarrow> event \<Rightarrow> listener \<Rightarrow> world \<Rightarrow> world" where
  "on call ev l s = addListener call ev (On l) s"

definition once :: "invoker \<Rightarrow> event \<Rightarrow> listener \<Rightarrow> world \<Rightarrow> world" where
  "once call ev l s = addListener call ev (Once (nextWrapper s) l) (s\<lparr>nextWrapper := Suc (nextWrapper s)\<rparr>)"

text \<open>
  What \<open>removeListener\<close> is asked to remove: a function, which also matches a wrapper
  around it (\<open>list[i] === listener || list[i].listener === listener\<close>), or a wrapper
  itself.
\<close>

datatype target = ByListener listener | ByWrapper nat listener

fun matches :: "target \<Rightarrow> registration \<Rightarrow> bool" where
  "matches (ByListener l) (On l') = (l = l')"
| "matches (ByListener l) (Once w' l') = (l = l')"
| "matches (ByWrapper w l) (On l') = False"
| "matches (ByWrapper w l) (Once w' l') = (w = w')"

fun target_listener :: "target \<Rightarrow> listener" where
  "target_listener (ByListener l) = l"
| "target_listener (ByWrapper w l) = l"

fun target_of :: "registration \<Rightarrow> target" where
  "target_of (On l) = ByListener l"
| "target_of (Once w l) = ByWrapper w l"

text \<open>The array without its last element that satisfies \<open>P\<close> (the scan runs from the end).\<close>

fun removeLast :: "('a \<Rightarrow> bool) \<Rightarrow> 'a list \<Rightarrow> 'a list" where
  "removeLast P [] = []"
| "removeLast P (x # xs) =
     (if list_ex P xs then x # removeLast P xs else if P x then xs else x # xs)"

definition removeListener :: "invoker \<Rightarrow> event \<Rightarrow> target \<Rightarrow> world \<Rightarrow> world" where
  "removeListener call ev t s =
     (let rs = listeners_of ev s in
      if \<not> list_ex (matches t) rs then s
      else let s1 = setListeners ev (removeLast (matches t) rs) s in
           if listeners_of EvRemoveListener s1 \<noteq> []
           then snd (emit call EvRemoveListener [AEvent ev, AListener (target_listener t)] s1)
           else s1)"

definition off :: "invoker \<Rightarrow> event \<Rightarrow> listener \<Rightarrow> world \<Rightarrow> world" where
  "off call ev l s = removeListener call ev (ByListener l) s"

text \<open>\<open>removeAllListeners(type)\<close>: silent when nobody listens for \<open>'removeListener'\<close>, last in first out otherwise.\<close>

definition removeAllListenersOf :: "invoker \<Rightarrow> event \<Rightarrow> world \<Rightarrow> world" where
  "removeAllListenersOf call ev s =
     (if listeners_of EvRemoveListener s = [] then setListeners ev [] s
      else seq (map (\<lambda>r. removeListener call ev (target_of r)) (rev (listeners_of ev s))) s)"

text \<open>\<open>removeAllListeners()\<close>.\<close>

definition removeAllListeners :: "invoker \<Rightarrow> world \<Rightarrow> world" where
  "removeAllListeners call s0 =
     (let s = effect RemoveAllListeners s0 in
      if listeners_of EvRemoveListener s = [] then s\<lparr>events := [], warned := []\<rparr>
      else seq (map (removeAllListenersOf call) (filter (\<lambda>ev. ev \<noteq> EvRemoveListener) (eventNames s))
                @ [removeAllListenersOf call EvRemoveListener,
                   \<lambda>s'. s'\<lparr>events := [], warned := []\<rparr>]) s)"

section \<open>The event bus (core/EventBus.ts)\<close>

text \<open>
  \<open>eventBusLogger.logError(name, error)\<close> (utils/Logger.ts) builds its record from
  \<open>error.name\<close>, \<open>error.message\<close> and \<open>error.stack\<close>, which throws a \<open>TypeError\<close> when
  \<open>error\<close> is \<open>null\<close> or \<open>undefined\<close>, and hands it to \<open>logger.error\<close>. A record of
  level \<open>error\<close> passes every transport; in a file transport it goes through
  \<open>fileFormat\<close>, where \<open>format.metadata({fillWith: ['timestamp', 'level', 'message']})\<close>
  moves \<open>level\<close> into \<open>metadata\<close> and the \<open>printf\<close> template then calls
  \<open>level.toUpperCase()\<close> on \<open>undefined\<close>: the transport rethrows that \<open>TypeError\<close> to
  the caller of the logger.
\<close>

definition readingFailure :: "string \<Rightarrow> string \<Rightarrow> string" where
  "readingFailure x property =
     ''TypeError: Cannot read properties of '' @ x @ '' (reading '' @ property @ '')''"

definition logError :: "logName \<Rightarrow> thrown \<Rightarrow> world \<Rightarrow> world" where
  "logError name v s =
     (case v of
        ErrorObject e \<Rightarrow>
          (if errorFiles s
           then throw (readingFailure ''undefined'' ''toUpperCase'') (effect (BusLogError name e) s)
           else effect (BusLogError name e) s)
      | Null \<Rightarrow> throw (readingFailure ''null'' ''name'') s
      | Undefined \<Rightarrow> throw (readingFailure ''undefined'' ''name'') s)"

text \<open>How a call of \<open>logError\<close> with \<open>v\<close> ends, by whether a file transport gets the record.\<close>

definition reported :: "thrown \<Rightarrow> bool \<Rightarrow> flow" where
  "reported v files =
     (case v of
        ErrorObject e \<Rightarrow>
          if files then Thrown (ErrorObject (readingFailure ''undefined'' ''toUpperCase''))
          else Normal
      | Null \<Rightarrow> Thrown (ErrorObject (readingFailure ''null'' ''name''))
      | Undefined \<Rightarrow> Thrown (ErrorObject (readingFailure ''undefined'' ''name'')))"

text \<open>
  \<open>emitTyped\<close>: one \<open>try\<close> around the whole \<open>emit\<close>; what is caught goes to the bus
  logger, and the result is \<open>false\<close> if the logger returns. What the logger throws
  leaves \<open>emitTyped\<close>.
\<close>

definition emitTyped :: "invoker \<Rightarrow> appEvent \<Rightarrow> arg list \<Rightarrow> world \<Rightarrow> bool \<times> world" where
  "emitTyped call k args s0 =
     (let r = emit call (EvApp k) args (effect (Publish k args) s0) in
      case flow (snd r) of
        Thrown v \<Rightarrow> (False, logError (LnEvent (EvApp k)) v ((snd r)\<lparr>flow := Normal\<rparr>))
      | _ \<Rightarrow> r)"

text \<open>The callers in this repository drop the result.\<close>

definition publish :: "invoker \<Rightarrow> appEvent \<Rightarrow> arg list \<Rightarrow> world \<Rightarrow> world" where
  "publish call k args s = snd (emitTyped call k args s)"

definition onTyped :: "invoker \<Rightarrow> appEvent \<Rightarrow> listener \<Rightarrow> world \<Rightarrow> world" where
  "onTyped call k l s = on call (EvApp k) l s"

definition onceTyped :: "invoker \<Rightarrow> appEvent \<Rightarrow> listener \<Rightarrow> world \<Rightarrow> world" where
  "onceTyped call k l s = once call (EvApp k) l s"

definition offTyped :: "invoker \<Rightarrow> appEvent \<Rightarrow> listener \<Rightarrow> world \<Rightarrow> world" where
  "offTyped call k l s = off call (EvApp k) l s"

definition getListenersInfo :: "world \<Rightarrow> (event \<times> nat) list \<times> world" where
  "getListenersInfo s =
     (map (\<lambda>ev. (ev, listenerCount ev s)) (eventNames s), effect (BusLogEvent LnStats 0) s)"

definition cleanup :: "invoker \<Rightarrow> world \<Rightarrow> world" where
  "cleanup call s = seq [effect (BusLogEvent LnCleanup 0), removeAllListeners call] s"

definition hasListeners :: "appEvent \<Rightarrow> world \<Rightarrow> bool" where
  "hasListeners k s = (0 < listenerCount (EvApp k) s)"

definition setupErrorHandling :: "invoker \<Rightarrow> world \<Rightarrow> world" where
  "setupErrorHandling call s =
     seq [on call EvError BusOnError,
          on call EvNewListener BusOnNewListener,
          on call EvRemoveListener BusOnRemoveListener] s"

definition setupEventLogging :: "world \<Rightarrow> world" where
  "setupEventLogging s = (if enableLogging s then s\<lparr>emitWrapped := True\<rparr> else s)"

text \<open>
  \<open>new EventBus(maxListeners, enableLogging)\<close>, in a process that has no bus yet. The
  limit is a natural number: \<open>setMaxListeners\<close> throws on anything else.
\<close>

definition newEventBus :: "invoker \<Rightarrow> nat \<Rightarrow> bool \<Rightarrow> world \<Rightarrow> world" where
  "newEventBus call m lg s =
     seq [\<lambda>s. s\<lparr>events := [], warned := [], maxListeners := m, enableLogging := lg,
                emitWrapped := False\<rparr>,
          setupErrorHandling call,
          setupEventLogging,
          effect (BusLogEvent LnInitialized 0)] s"

text \<open>The constructor's default arguments: \<open>maxListeners = 50\<close>, \<open>enableLogging = true\<close>.\<close>

definition newEventBusOpt :: "invoker \<Rightarrow> nat option \<Rightarrow> bool option \<Rightarrow> world \<Rightarrow> world" where
  "newEventBusOpt call m lg s =
     newEventBus call (case m of None \<Rightarrow> 50 | Some v \<Rightarrow> v)
       (case lg of None \<Rightarrow> True | Some b \<Rightarrow> b) s"

section \<open>The terminal manager (core/TerminalManager.ts)\<close>

text \<open>
  terminal-kit is the presentation sink: each drawing method leaves one \<open>TermWrite\<close>,
  \<open>grabInput\<close> leaves \<open>TermGrabInput\<close>, and its calls do not throw.
\<close>

definition showShutdownMessage :: "world \<Rightarrow> world" where
  "showShutdownMessage s =
     seq [effect (Log Info TmShowingShutdownMessage),
          effect (TermWrite ShutdownMessage)] s"

definition stopKeyListener :: "world \<Rightarrow> world" where
  "stopKeyListener s =
     (if isInputGrabbed s
      then seq [effect (TermGrabInput False),
                \<lambda>s. s\<lparr>isInputGrabbed := False\<rparr>,
                effect (Log Info TmKeyListenerStopped)] s
      else s)"

definition startKeyListener :: "world \<Rightarrow> world" where
  "startKeyListener s =
     (if grabInput s \<and> \<not> isInputGrabbed s
      then seq [effect (TermGrabInput True),
                \<lambda>s. s\<lparr>isInputGrabbed := True\<rparr>,
                \<lambda>s. (effect (TermCall OnKey) s)\<lparr>keyHandlers := Suc (keyHandlers s)\<rparr>,
                effect (Log Info TmKeyListenerStarted)] s
      else s)"

definition showWelcomeScreen :: "world \<Rightarrow> world" where
  "showWelcomeScreen s =
     seq [effect (TermCall Clear),
          effect (TermWrite Header),
          effect (TermWrite SystemInfo),
          effect (TermWrite Instructions),
          effect (TermWrite StatusLine),
          effect (Log Info TmWelcomeShown)] s"

definition showError :: "errorTitle \<Rightarrow> world \<Rightarrow> world" where
  "showError title s =
     seq [effect (TermWrite (ErrorLine title)),
          \<lambda>s. if environment s = ''development'' then effect (TermWrite ErrorDetails) s else s,
          effect (Log Err TmErrorShown)] s"

definition showInfo :: "infoText \<Rightarrow> world \<Rightarrow> world" where
  "showInfo message s =
     seq [effect (TermWrite (InfoLine message)),
          effect (Log Info TmInfoShown)] s"

definition showKeyPress :: "string \<Rightarrow> world \<Rightarrow> world" where
  "showKeyPress name s = effect (TermWrite (KeyLine name)) s"

text \<open>\<open>TerminalManager.gracefulShutdown\<close>; the timer runs \<open>timerCallback\<close> after 80 ms.\<close>

definition tmGracefulShutdown :: "world \<Rightarrow> world" where
  "tmGracefulShutdown s =
     (if \<not> isInitialized s
      then seq [effect (Log Warn TmShutdownNotInitialized),
                processExit 0] s
      else seq [effect (Log Info TmShutdownBegins),
                showShutdownMessage,
                stopKeyListener,
                effect (TermWrite Goodbye),
                \<lambda>s. (effect (SetTimeout 80) s)\<lparr>timers := timers s @ [80]\<rparr>] s)"

definition timerCallback :: "world \<Rightarrow> world" where
  "timerCallback s = seq [effect (Log Info TmExitingProcess), processExit 0] s"

definition tmHandleAppStart :: "world \<Rightarrow> world" where
  "tmHandleAppStart s =
     seq [effect (Log Info TmAppStart),
          showWelcomeScreen,
          startKeyListener,
          \<lambda>s. s\<lparr>isInitialized := True\<rparr>,
          effect (Log Info TmInitialized)] s"

definition tmHandleAppStop :: "world \<Rightarrow> world" where
  "tmHandleAppStop s =
     seq [effect (Log Info TmAppStop), showShutdownMessage, stopKeyListener] s"

definition tmHandleExit :: "world \<Rightarrow> world" where
  "tmHandleExit s = seq [effect (Log Info TmExitSignal), tmGracefulShutdown] s"

definition handleKeyPress :: "invoker \<Rightarrow> string \<Rightarrow> world \<Rightarrow> world" where
  "handleKeyPress call name s =
     tryCatch
       (seq [effect (Log Debug TmKeyPressed),
             \<lambda>s. if name = ''CTRL_X'' \<or> name = ''CTRL_C''
                  then seq [effect (Log Info TmExitCommand),
                            publish call TerminalExit []] s
                  else seq [publish call TerminalKey [AStr name],
                            \<lambda>s. if environment s = ''development'' then showKeyPress name s else s] s])
       (\<lambda>v. case v of
              ErrorObject e \<Rightarrow> effect (Log Err TmHandleKeyPressFailed)
            | Null \<Rightarrow> throw (readingFailure ''null'' ''message'')
            | Undefined \<Rightarrow> throw (readingFailure ''undefined'' ''message'')) s"

definition onTermResize :: "invoker \<Rightarrow> int \<Rightarrow> int \<Rightarrow> world \<Rightarrow> world" where
  "onTermResize call w h s =
     seq [effect (Log Debug TmResized),
          publish call TerminalResize [ANum w, ANum h]] s"

definition setupTerminal :: "world \<Rightarrow> world" where
  "setupTerminal s =
     seq [\<lambda>s. if \<not> colors s then effect (TermCall NoFormat) s else s,
          effect (TermCall OnResize),
          effect (Log Info TmSetUp)] s"

definition tmSetupEventListeners :: "invoker \<Rightarrow> world \<Rightarrow> world" where
  "tmSetupEventListeners call s =
     seq [onTyped call AppStart TmHandleAppStart,
          onTyped call AppStop TmHandleAppStop,
          onTyped call TerminalExit TmHandleExit,
          effect (Log Debug TmListenersSetUp)] s"

text \<open>\<open>new TerminalManager(eventBus, {colors, unicode, grabInput, mouse})\<close>.\<close>

definition newTerminalManager :: "invoker \<Rightarrow> bool \<Rightarrow> bool \<Rightarrow> world \<Rightarrow> world" where
  "newTerminalManager call cfgColors cfgGrabInput s =
     seq [\<lambda>s. s\<lparr>colors := cfgColors, grabInput := cfgGrabInput,
                isInputGrabbed := False, isInitialized := False\<rparr>,
          effect (Log Info TmCreated),
          setupTerminal,
          tmSetupEventListeners call] s"

section \<open>The orchestrator (index.ts)\<close>

definition handleAppStart :: "world \<Rightarrow> world" where
  "handleAppStart s =
     seq [\<lambda>s. s\<lparr>isRunning := True\<rparr>,
          effect (Log Info AppStarted),
          showInfo StartedText] s"

definition handleAppStop :: "world \<Rightarrow> world" where
  "handleAppStop s =
     seq [\<lambda>s. s\<lparr>isRunning := False\<rparr>,
          effect (Log Info AppStopped),
          showInfo StoppingText] s"

definition handleAppError :: "world \<Rightarrow> world" where
  "handleAppError s =
     seq [effect (Log Err AppFailed), showError ApplicationError] s"

definition handleTerminalKey :: "world \<Rightarrow> world" where
  "handleTerminalKey s = effect (Log Debug AppKey) s"

definition handleTerminalResize :: "int \<Rightarrow> int \<Rightarrow> world \<Rightarrow> world" where
  "handleTerminalResize width height s =
     seq [effect (Log Debug AppResized),
          \<lambda>s. if environment s = ''development''
               then showInfo (ResizedText width height) s else s] s"

text \<open>\<open>DTraderCrypto.gracefulShutdown\<close>.\<close>

definition gracefulShutdown :: "invoker \<Rightarrow> world \<Rightarrow> world" where
  "gracefulShutdown call s =
     (if \<not> isRunning s
      then effect (Log Warn AppAlreadyStopped) s
      else seq [\<lambda>s. s\<lparr>isRunning := False\<rparr>,
                effect (Log Info AppShutdownBegins),
                publish call AppStop [],
                tmGracefulShutdown,
                cleanup call,
                effect (Log Info AppShutdownDone)] s)"

definition handleExit :: "invoker \<Rightarrow> world \<Rightarrow> world" where
  "handleExit call s = seq [effect (Log Info AppHandlingExit), gracefulShutdown call] s"

definition start :: "invoker \<Rightarrow> world \<Rightarrow> world" where
  "start call s =
     tryCatch
       (seq [effect (Log Info AppStarting),
             showInfo StartingText,
             publish call AppStart []])
       (\<lambda>v. seq [effect (Log Err AppStartFailed),
                 publish call AppError [AErr (messageOf v)]]) s"

definition setupEventListeners :: "invoker \<Rightarrow> world \<Rightarrow> world" where
  "setupEventListeners call s =
     seq [onTyped call AppStart AppHandleAppStart,
          onTyped call AppStop AppHandleAppStop,
          onTyped call AppError AppHandleAppError,
          onTyped call TerminalExit AppHandleExit,
          onTyped call TerminalKey AppHandleTerminalKey,
          onTyped call TerminalResize AppHandleTerminalResize,
          effect (Log Debug AppListenersSetUp)] s"

text \<open>The four handlers \<open>setupProcessHandlers\<close> installs.\<close>

definition onSigint :: "invoker \<Rightarrow> world \<Rightarrow> world" where
  "onSigint call s = seq [effect (Log Warn AppSigint), publish call TerminalExit []] s"

definition onSigterm :: "invoker \<Rightarrow> world \<Rightarrow> world" where
  "onSigterm call s = seq [effect (Log Warn AppSigterm), publish call TerminalExit []] s"

definition onUncaughtException :: "invoker \<Rightarrow> string \<Rightarrow> world \<Rightarrow> world" where
  "onUncaughtException call e s =
     seq [effect (Log Err AppUncaughtException),
          showError UnhandledError,
          gracefulShutdown call] s"

definition onUnhandledRejection :: "invoker \<Rightarrow> string \<Rightarrow> world \<Rightarrow> world" where
  "onUnhandledRejection call reason s =
     seq [effect (Log Err AppUnhandledRejection),
          showError UnhandledPromiseRejection,
          gracefulShutdown call] s"

text \<open>
  \<open>new DTraderCrypto(eventBus)\<close>; \<open>TERMINAL_COLORS\<close> decides \<open>colors\<close>, \<open>grabInput\<close> is
  \<open>true\<close>.
\<close>

definition newDTraderCrypto :: "invoker \<Rightarrow> bool \<Rightarrow> world \<Rightarrow> world" where
  "newDTraderCrypto call termColors s =
     seq [\<lambda>s. s\<lparr>isRunning := False\<rparr>,
          effect (Log Info AppCreated),
          newTerminalManager call termColors True,
          setupEventListeners call,
          effect (Log Debug AppProcessHandlersSetUp)] s"

section \<open>Calling a registered function\<close>

text \<open>The bodies of the registered functions; every call leaves an \<open>Invoke\<close> mark first.\<close>

fun body :: "invoker \<Rightarrow> listener \<Rightarrow> arg list \<Rightarrow> world \<Rightarrow> world" where
  "body call BusOnError args s =
     logError LnBusError (case args of AErr e # _ \<Rightarrow> ErrorObject e | _ \<Rightarrow> Undefined) s"
| "body call BusOnNewListener args s =
     (case args of
        AEvent ev # _ \<Rightarrow> effect (BusLogListenerAdd ev (listenerCount ev s + 1)) s
      | _ \<Rightarrow> s)"
| "body call BusOnRemoveListener args s =
     (case args of
        AEvent ev # _ \<Rightarrow> effect (BusLogListenerRemove ev (int (listenerCount ev s) - 1)) s
      | _ \<Rightarrow> s)"
| "body call AppHandleAppStart args s = handleAppStart s"
| "body call AppHandleAppStop args s = handleAppStop s"
| "body call AppHandleAppError args s = handleAppError s"
| "body call AppHandleExit args s = handleExit call s"
| "body call AppHandleTerminalKey args s = handleTerminalKey s"
| "body call AppHandleTerminalResize args s =
     (case args of
        ANum width # ANum height # _ \<Rightarrow> handleTerminalResize width height s
      | _ \<Rightarrow> handleTerminalResize 0 0 s)"
| "body call TmHandleAppStart args s = tmHandleAppStart s"
| "body call TmHandleAppStop args s = tmHandleAppStop s"
| "body call TmHandleExit args s = tmHandleExit s"
| "body call (External i Returns) args s = s"
| "body call (External i (Throws e)) args s = throw e s"
| "body call (External i ThrowsNull) args s = throwValue Null s"

text \<open>
  An array entry is called: the function, or the \<open>once\<close> wrapper, which removes itself
  and then calls the function, unless it has fired already.
\<close>

fun callRegistration :: "invoker \<Rightarrow> invoker" where
  "callRegistration call (On l) ev args s = body call l args (effect (Invoke l args) s)"
| "callRegistration call (Once w l) ev args s =
     (if w \<in> set (fired s) then s
      else seq [removeListener call ev (ByWrapper w l),
                \<lambda>s. s\<lparr>fired := w # fired s\<rparr>,
                \<lambda>s. body call l args (effect (Invoke l args) s)] s)"

text \<open>
  \<open>invoke n\<close> calls an entry with room for \<open>n\<close> nested listener calls on the stack; with
  no room left the call throws, as the engine's \<open>RangeError\<close> does.
\<close>

fun invoke :: "nat \<Rightarrow> invoker" where
  "invoke 0 r ev args s = throw ''RangeError: Maximum call stack size exceeded'' s"
| "invoke (Suc n) r ev args s = callRegistration (invoke n) r ev args s"

section \<open>The process\<close>

text \<open>
  A process before any module is loaded; \<open>nodeEnv\<close> is \<open>NODE_ENV\<close>
  (\<open>process.env.NODE_ENV || 'development'\<close>). The logging is the one an orchestrator
  needs to get constructed at all: \<open>LOG_FILE\<close> and \<open>LOG_ERROR_FILE\<close> are \<open>'false'\<close>, so
  that no record reaches a file transport (\<open>errorFiles\<close> is \<open>False\<close>) and the calls of
  the module loggers return. With a file transport, the first record of level \<open>info\<close>,
  written by the constructor of \<open>TerminalManager\<close>, throws in \<open>fileFormat\<close>. Records
  of level \<open>debug\<close>, the only ones a bus writes unless \<open>logError\<close> is called, reach no
  transport at the default \<open>LOG_LEVEL\<close>.
\<close>

definition processStart :: "string option \<Rightarrow> world" where
  "processStart nodeEnv =
     \<lparr>events = [], warned = [], maxListeners = 10, enableLogging = False, emitWrapped = False,
      nextWrapper = 0, fired = [], isRunning = False,
      environment = (case nodeEnv of None \<Rightarrow> ''development''
                     | Some e \<Rightarrow> if e = [] then ''development'' else e),
      errorFiles = False,
      colors = True, grabInput = True, isInitialized = False, isInputGrabbed = False,
      keyHandlers = 0, timers = [], flow = Normal, trace = []\<rparr>"

text \<open>
  The module-level \<open>eventBus\<close> (limit from \<open>EVENT_BUS_MAX_LISTENERS\<close>, logging when
  \<open>NODE_ENV === 'development'\<close>) and \<open>new DTraderCrypto(eventBus)\<close>: the orchestrator
  before \<open>start()\<close>.
\<close>

definition constructed :: "nat \<Rightarrow> string option \<Rightarrow> nat \<Rightarrow> bool \<Rightarrow> world" where
  "constructed n nodeEnv busLimit termColors =
     seq [newEventBus (invoke n) busLimit (nodeEnv = Some ''development''),
          newDTraderCrypto (invoke n) termColors] (processStart nodeEnv)"

text \<open>
  What reaches the process from outside: a call of \<open>start()\<close>, the signals, the two
  fault hooks, terminal-kit's \<open>key\<close> (delivered while input is grabbed, to each handler
  \<open>startKeyListener\<close> has registered) and \<open>resize\<close> events, and a timer that is due.
  Nothing is delivered once the process has exited.
\<close>

datatype stimulus =
    CallStart | Sigint | Sigterm
  | UncaughtException string | UnhandledRejection string
  | KeyPressed string | Resized int int
  | TimerFires

fun handler :: "nat \<Rightarrow> stimulus \<Rightarrow> world \<Rightarrow> world" where
  "handler n CallStart s = start (invoke n) s"
| "handler n Sigint s = onSigint (invoke n) s"
| "handler n Sigterm s = onSigterm (invoke n) s"
| "handler n (UncaughtException e) s = onUncaughtException (invoke n) e s"
| "handler n (UnhandledRejection e) s = onUnhandledRejection (invoke n) e s"
| "handler n (KeyPressed name) s =
     (if isInputGrabbed s
      then seq (replicate (keyHandlers s) (handleKeyPress (invoke n) name)) s
      else s)"
| "handler n (Resized w h) s = onTermResize (invoke n) w h s"
| "handler n TimerFires s =
     (case timers s of [] \<Rightarrow> s | t # ts \<Rightarrow> timerCallback (s\<lparr>timers := ts\<rparr>))"

definition step :: "nat \<Rightarrow> stimulus \<Rightarrow> world \<Rightarrow> world" where
  "step n x s = (if flow s = Normal then handler n x s else s)"

definition run :: "nat \<Rightarrow> stimulus list \<Rightarrow> world \<Rightarrow> world" where
  "run n xs s = foldl (\<lambda>s x. step n x s) s xs"

section \<open>Observing a bus\<close>

text \<open>
  Calls of the typed methods by a subscriber outside the repository, whose callbacks are
  \<open>External\<close>, and the buses such calls lead to from a new one. \<open>emitTyped\<close> can throw
  to its caller; the subscriber is taken to catch that and go on (\<open>caught\<close>). A bus
  exists with file transports as well as without: \<open>files\<close> tells whether records of
  level \<open>error\<close> reach a file transport, which they do unless both \<open>LOG_FILE\<close> and
  \<open>LOG_ERROR_FILE\<close> are \<open>'false'\<close>.
\<close>

definition caught :: "(world \<Rightarrow> world) \<Rightarrow> world \<Rightarrow> world" where
  "caught f s = tryCatch f (\<lambda>v s'. s') s"

datatype busCall =
    Subscribe appEvent nat behaviour
  | SubscribeOnce appEvent nat behaviour
  | Unsubscribe appEvent nat behaviour
  | PublishCall appEvent "arg list"

fun applyCall :: "nat \<Rightarrow> busCall \<Rightarrow> world \<Rightarrow> world" where
  "applyCall n (Subscribe k i b) s = onTyped (invoke n) k (External i b) s"
| "applyCall n (SubscribeOnce k i b) s = onceTyped (invoke n) k (External i b) s"
| "applyCall n (Unsubscribe k i b) s = offTyped (invoke n) k (External i b) s"
| "applyCall n (PublishCall k args) s = caught (publish (invoke n) k args) s"

definition busAfter :: "nat \<Rightarrow> bool \<Rightarrow> nat \<Rightarrow> bool \<Rightarrow> busCall list \<Rightarrow> world" where
  "busAfter n files m lg cs =
     foldl (\<lambda>s c. applyCall n c s)
       (newEventBus (invoke n) m lg ((processStart None)\<lparr>errorFiles := files\<rparr>)) cs"

text \<open>Several publishes of one kind in a row.\<close>

definition publishAll :: "nat \<Rightarrow> appEvent \<Rightarrow> arg list list \<Rightarrow> world \<Rightarrow> world" where
  "publishAll n k argss s = foldl (\<lambda>s args. caught (publish (invoke n) k args) s) s argss"

fun isBookkeeping :: "listener \<Rightarrow> bool" where
  "isBookkeeping BusOnError = True"
| "isBookkeeping BusOnNewListener = True"
| "isBookkeeping BusOnRemoveListener = True"
| "isBookkeeping l = False"

text \<open>The calls of listeners other than the bus's own three, with their arguments, in order.\<close>

fun invocations :: "action list \<Rightarrow> (listener \<times> arg list) list" where
  "invocations [] = []"
| "invocations (Invoke l args # as) =
     (if isBookkeeping l then invocations as else (l, args) # invocations as)"
| "invocations (a # as) = invocations as"

text \<open>The calls of one listener.\<close>

definition callsOf :: "listener \<Rightarrow> action list \<Rightarrow> (listener \<times> arg list) list" where
  "callsOf f tr = filter (\<lambda>c. fst c = f) (invocations tr)"

fun throwsOn :: "listener \<Rightarrow> bool" where
  "throwsOn (External i (Throws e)) = True"
| "throwsOn (External i ThrowsNull) = True"
| "throwsOn l = False"

fun isExternal :: "listener \<Rightarrow> bool" where
  "isExternal (External i b) = True"
| "isExternal l = False"

section \<open>Describing a fan-out\<close>

text \<open>
  What one \<open>emit\<close> does to an array of \<open>External\<close> listeners: the entries up to the first
  one that throws are called (\<open>delivered\<close>), those after it are not (\<open>undelivered\<close>);
  the wrappers among the called ones are gone afterwards (\<open>survivors\<close>), and \<open>outcome\<close>
  is how \<open>emit\<close> ends.
\<close>

fun wids :: "registration list \<Rightarrow> nat list" where
  "wids [] = []"
| "wids (On l # rs) = wids rs"
| "wids (Once w l # rs) = w # wids rs"

fun delivered :: "registration list \<Rightarrow> registration list" where
  "delivered [] = []"
| "delivered (r # rs) = (if throwsOn (listener_of r) then [r] else r # delivered rs)"

fun undelivered :: "registration list \<Rightarrow> registration list" where
  "undelivered [] = []"
| "undelivered (r # rs) = (if throwsOn (listener_of r) then rs else undelivered rs)"

fun isOn :: "registration \<Rightarrow> bool" where
  "isOn (On l) = True"
| "isOn (Once w l) = False"

definition survivors :: "registration list \<Rightarrow> registration list" where
  "survivors rs = filter isOn (delivered rs) @ undelivered rs"

fun errorOf :: "listener \<Rightarrow> thrown" where
  "errorOf (External i (Throws e)) = ErrorObject e"
| "errorOf (External i ThrowsNull) = Null"
| "errorOf l = Undefined"

fun outcome :: "registration list \<Rightarrow> flow" where
  "outcome [] = Normal"
| "outcome (r # rs) =
     (if throwsOn (listener_of r) then Thrown (errorOf (listener_of r)) else outcome rs)"

text \<open>
  A bus as its constructor leaves it and subscribers from outside use it: the three
  bookkeeping listeners in place, only \<open>External\<close> listeners on the application kinds,
  wrappers distinct and not fired.
\<close>

definition bus_inv :: "world \<Rightarrow> bool" where
  "bus_inv s \<longleftrightarrow>
     flow s = Normal
   \<and> listeners_of EvNewListener s = [On BusOnNewListener]
   \<and> listeners_of EvRemoveListener s = [On BusOnRemoveListener]
   \<and> (\<forall>k. list_all (\<lambda>r. isExternal (listener_of r)) (listeners_of (EvApp k) s)
          \<and> distinct (wids (listeners_of (EvApp k) s))
          \<and> (\<forall>w\<in>set (wids (listeners_of (EvApp k) s)). w \<notin> set (fired s) \<and> w < nextWrapper s))
   \<and> (\<forall>k k'. k \<noteq> k' \<longrightarrow>
          set (wids (listeners_of (EvApp k) s)) \<inter> set (wids (listeners_of (EvApp k') s)) = {})
   \<and> (\<forall>w\<in>set (fired s). w < nextWrapper s)"

section \<open>Observing a session\<close>

text \<open>
  A session: the module-level bus and the orchestrator are constructed, then stimuli
  arrive one after the other.
\<close>

definition session :: "nat \<Rightarrow> string option \<Rightarrow> nat \<Rightarrow> bool \<Rightarrow> stimulus list \<Rightarrow> world" where
  "session n nodeEnv busLimit termColors xs = run n xs (constructed n nodeEnv busLimit termColors)"

text \<open>
  The code keeps no state variable; the phase of the process is read off \<open>isRunning\<close>
  (set by \<open>handleAppStart\<close>, cleared by \<open>gracefulShutdown\<close>), \<open>isInitialized\<close> (set by
  the terminal manager's \<open>handleAppStart\<close>, never cleared) and the exit of the process.
\<close>

datatype phase = Idle | Running | Stopping | Stopped

definition lifecycle :: "world \<Rightarrow> phase" where
  "lifecycle s =
     (case flow s of
        Exited c \<Rightarrow> Stopped
      | _ \<Rightarrow> if isRunning s then Running else if isInitialized s then Stopping else Idle)"

text \<open>The stimuli that ask for an exit, and the two fault hooks.\<close>

fun exitTrigger :: "stimulus \<Rightarrow> bool" where
  "exitTrigger Sigint = True"
| "exitTrigger Sigterm = True"
| "exitTrigger (KeyPressed name) = (name = ''CTRL_X'' \<or> name = ''CTRL_C'')"
| "exitTrigger x = False"

fun fatalFault :: "stimulus \<Rightarrow> bool" where
  "fatalFault (UncaughtException e) = True"
| "fatalFault (UnhandledRejection e) = True"
| "fatalFault x = False"


text \<open>The phase after a stimulus, as the code moves it.\<close>

fun transition :: "phase \<Rightarrow> stimulus \<Rightarrow> phase" where
  "transition Idle x =
     (if x = CallStart then Running else if x = Sigint \<or> x = Sigterm then Stopped else Idle)"
| "transition Running x = (if exitTrigger x \<or> fatalFault x then Stopping else Running)"
| "transition Stopping x = (if x = TimerFires then Stopped else Stopping)"
| "transition Stopped x = Stopped"

text \<open>
  The steps of a shutdown as they show in the trace: \<open>app:stop\<close> published, input
  released, a timer set, the bus reset, the process exited.
\<close>

fun isMilestone :: "action \<Rightarrow> bool" where
  "isMilestone (Publish AppStop args) = True"
| "isMilestone (TermGrabInput False) = True"
| "isMilestone RemoveAllListeners = True"
| "isMilestone (SetTimeout d) = True"
| "isMilestone (ProcessExit c) = True"
| "isMilestone a = False"

definition milestones :: "action list \<Rightarrow> action list" where
  "milestones tr = filter isMilestone tr"

text \<open>The three actions a shutdown must not repeat.\<close>

fun isShutdownAction :: "action \<Rightarrow> bool" where
  "isShutdownAction (TermGrabInput False) = True"
| "isShutdownAction RemoveAllListeners = True"
| "isShutdownAction (ProcessExit c) = True"
| "isShutdownAction a = False"

definition shutdownActions :: "action list \<Rightarrow> action list" where
  "shutdownActions tr = filter isShutdownAction tr"

text \<open>The error lines written to the terminal, and the exits.\<close>

fun isFaultMark :: "action \<Rightarrow> bool" where
  "isFaultMark (TermWrite (ErrorLine t)) = True"
| "isFaultMark (ProcessExit c) = True"
| "isFaultMark a = False"

definition faultMarks :: "action list \<Rightarrow> action list" where
  "faultMarks tr = filter isFaultMark tr"

text \<open>
  The milestones of a shutdown that starts in a fault hook, and of one that starts with
  \<open>terminal:exit\<close>, where the terminal manager's \<open>handleExit\<close> runs before the
  orchestrator's.
\<close>

definition faultPath :: "action list" where
  "faultPath = [Publish AppStop [], TermGrabInput False, SetTimeout 80, RemoveAllListeners]"

definition exitPath :: "action list" where
  "exitPath = [TermGrabInput False, SetTimeout 80, Publish AppStop [], SetTimeout 80,
               RemoveAllListeners]"

text \<open>The listener table once both constructors have run.\<close>

definition registrations0 :: "(event \<times> registration list) list" where
  "registrations0 =
     [(EvError, [On BusOnError]), (EvNewListener, [On BusOnNewListener]),
      (EvRemoveListener, [On BusOnRemoveListener]),
      (EvApp AppStart, [On TmHandleAppStart, On AppHandleAppStart]),
      (EvApp AppStop, [On TmHandleAppStop, On AppHandleAppStop]),
      (EvApp TerminalExit, [On TmHandleExit, On AppHandleExit]),
      (EvApp AppError, [On AppHandleAppError]),
      (EvApp TerminalKey, [On AppHandleTerminalKey]),
      (EvApp TerminalResize, [On AppHandleTerminalResize])]"

text \<open>What a session looks like in each phase.\<close>

definition idle :: "world \<Rightarrow> bool" where
  "idle s \<longleftrightarrow>
     events s = registrations0 \<and> flow s = Normal \<and> \<not> isRunning s \<and> \<not> isInitialized s
   \<and> grabInput s \<and> \<not> isInputGrabbed s \<and> keyHandlers s = 0 \<and> timers s = []
   \<and> milestones (trace s) = []"

definition running :: "world \<Rightarrow> bool" where
  "running s \<longleftrightarrow>
     events s = registrations0 \<and> flow s = Normal \<and> isRunning s \<and> isInitialized s
   \<and> grabInput s \<and> isInputGrabbed s \<and> keyHandlers s = 1 \<and> timers s = []
   \<and> milestones (trace s) = []"

definition stopping :: "world \<Rightarrow> bool" where
  "stopping s \<longleftrightarrow>
     events s = [] \<and> flow s = Normal \<and> \<not> isRunning s \<and> isInitialized s
   \<and> \<not> isInputGrabbed s
   \<and> (timers s = [80] \<and> milestones (trace s) = faultPath
      \<or> timers s = [80, 80] \<and> milestones (trace s) = exitPath)"

definition stopped :: "world \<Rightarrow> bool" where
  "stopped s \<longleftrightarrow>
     flow s = Exited 0
   \<and> (milestones (trace s) = [ProcessExit 0]
      \<or> milestones (trace s) = faultPath @ [ProcessExit 0]
      \<or> milestones (trace s) = exitPath @ [ProcessExit 0])"

definition settled :: "world \<Rightarrow> bool" where
  "settled s \<longleftrightarrow> idle s \<or> running s \<or> stopping s \<or> stopped s"

text \<open>Traces that set no milestone and write no error line.\<close>

definition quiet :: "action list \<Rightarrow> bool" where
  "quiet T \<longleftrightarrow> milestones T = [] \<and> faultMarks T = []"

text \<open>What the removal of listeners leaves in the trace.\<close>

fun removalNoise :: "action \<Rightarrow> bool" where
  "removalNoise (BusLogEvent n c) = True"
| "removalNoise (Invoke l args) = (l = BusOnRemoveListener)"
| "removalNoise (BusLogListenerRemove ev c) = True"
| "removalNoise a = False"

text \<open>A step that touches only the listener table, its warning marks and the trace.\<close>

definition busStep :: "world \<Rightarrow> action list \<Rightarrow> world \<Rightarrow> bool" where
  "busStep s T s' \<longleftrightarrow> (\<exists>E W. s' = s\<lparr>events := E, warned := W, trace := trace s @ T\<rparr>)"

text \<open>What one registration leaves in the trace and in the warning marks.\<close>

definition addTrace :: "event \<Rightarrow> registration \<Rightarrow> world \<Rightarrow> action list" where
  "addTrace ev r s =
     (if emitWrapped s then [BusLogEvent (LnEvent EvNewListener) 1] else [])
     @ [Invoke BusOnNewListener [AEvent ev, AListener (listener_of r)],
        BusLogListenerAdd ev (listenerCount ev s + 1)]
     @ (if 0 < maxListeners s \<and> maxListeners s \<le> listenerCount ev s \<and> ev \<notin> set (warned s)
        then [MaxListenersWarning ev (listenerCount ev s + 1)] else [])"

definition addWarned :: "event \<Rightarrow> world \<Rightarrow> event list" where
  "addWarned ev s =
     (if 0 < maxListeners s \<and> maxListeners s \<le> listenerCount ev s \<and> ev \<notin> set (warned s)
      then ev # warned s
      else if listenerCount ev s = 0 then removeAll ev (warned s) else warned s)"

text \<open>The listener table after a list of registrations.\<close>

fun subscribed :: "(appEvent \<times> listener) list \<Rightarrow> (event \<times> registration list) list
    \<Rightarrow> (event \<times> registration list) list" where
  "subscribed [] E = E"
| "subscribed ((k, l) # ps) E =
     subscribed ps (AList.update (EvApp k)
       ((case map_of E (EvApp k) of None \<Rightarrow> [] | Some rs \<Rightarrow> rs) @ [On l]) E)"

section \<open>The accessors \<open>getConfig\<close> and \<open>getSessionInfo\<close>\<close>

text \<open>
  \<open>getConfig()\<close> returns \<open>{ ...this.config }\<close> and \<open>getSessionInfo()\<close> returns
  \<open>{ ...this.sessionInfo }\<close>. Objects live in a heap and are known by reference: a plain
  object is its own properties in insertion order, a \<open>Date\<close> is its time value. The
  three properties of \<open>config\<close> and \<open>id\<close>, \<open>version\<close> and \<open>environment\<close> of
  \<open>sessionInfo\<close> are strings; \<open>startTime\<close> is a reference to a \<open>Date\<close>.
\<close>

type_synonym ref = nat

datatype jsValue = JString string | JNumber int | JRef ref | JUndefined

datatype jsObject = Plain "(string \<times> jsValue) list" | DateOf int

text \<open>
  The heap, the two \<open>private readonly\<close> fields, and what the callers of the accessors
  hold: the references the accessors have returned, oldest first.
\<close>

record objects =
  heap :: "jsObject list"
  config :: ref
  sessionInfo :: ref
  handles :: "ref list"

text \<open>\<open>process.env.X || d\<close>.\<close>

definition orDefault :: "string option \<Rightarrow> string \<Rightarrow> string" where
  "orDefault v d = (case v of None \<Rightarrow> d | Some x \<Rightarrow> if x = [] then d else x)"

text \<open>
  The object literals of the two constructors; \<open>sessionId\<close> is the result of
  \<open>randomBytes(4).toString('hex').toUpperCase()\<close>, \<open>now\<close> the time of \<open>new Date()\<close>.
\<close>

definition newObjects :: "string option \<Rightarrow> string option \<Rightarrow> string \<Rightarrow> int \<Rightarrow> objects" where
  "newObjects npmVersion nodeEnv sessionId now =
     \<lparr>heap = [Plain [(''name'', JString ''dtrader-crypto 2.0''),
                     (''version'', JString (orDefault npmVersion ''2.0.0'')),
                     (''environment'', JString (orDefault nodeEnv ''development''))],
              DateOf now,
              Plain [(''id'', JString sessionId),
                     (''startTime'', JRef 1),
                     (''version'', JString (orDefault npmVersion ''2.0.0'')),
                     (''environment'', JString (orDefault nodeEnv ''development''))]],
      config = 0, sessionInfo = 2, handles = []\<rparr>"

definition properties :: "ref \<Rightarrow> objects \<Rightarrow> (string \<times> jsValue) list" where
  "properties r h =
     (if r < length (heap h)
      then (case heap h ! r of Plain ps \<Rightarrow> ps | DateOf t \<Rightarrow> [])
      else [])"

text \<open>
  \<open>{ ...o }\<close>: a new object with the own properties of \<open>o\<close>; each value is copied as it
  is, so a reference stays a reference to the same object.
\<close>

definition spread :: "ref \<Rightarrow> objects \<Rightarrow> ref \<times> objects" where
  "spread r h = (length (heap h), h\<lparr>heap := heap h @ [Plain (properties r h)]\<rparr>)"

definition getConfig :: "objects \<Rightarrow> ref \<times> objects" where
  "getConfig h = spread (config h) h"

definition getSessionInfo :: "objects \<Rightarrow> ref \<times> objects" where
  "getSessionInfo h = spread (sessionInfo h) h"

text \<open>\<open>r[p] = v\<close> and \<open>delete r[p]\<close> on a plain object.\<close>

definition assign :: "ref \<Rightarrow> string \<Rightarrow> jsValue \<Rightarrow> objects \<Rightarrow> objects" where
  "assign r p v h =
     (if r < length (heap h)
      then (case heap h ! r of
              Plain ps \<Rightarrow> h\<lparr>heap := (heap h)[r := Plain (AList.update p v ps)]\<rparr>
            | DateOf t \<Rightarrow> h)
      else h)"

definition deleteProperty :: "ref \<Rightarrow> string \<Rightarrow> objects \<Rightarrow> objects" where
  "deleteProperty r p h =
     (if r < length (heap h)
      then (case heap h ! r of
              Plain ps \<Rightarrow> h\<lparr>heap := (heap h)[r := Plain (AList.delete p ps)]\<rparr>
            | DateOf t \<Rightarrow> h)
      else h)"

text \<open>\<open>Date.prototype.setTime\<close> and \<open>getTime\<close>.\<close>

definition setTime :: "ref \<Rightarrow> int \<Rightarrow> objects \<Rightarrow> objects" where
  "setTime r t h =
     (if r < length (heap h)
      then (case heap h ! r of
              DateOf t' \<Rightarrow> h\<lparr>heap := (heap h)[r := DateOf t]\<rparr>
            | Plain ps \<Rightarrow> h)
      else h)"

definition getTime :: "ref \<Rightarrow> objects \<Rightarrow> int option" where
  "getTime r h =
     (if r < length (heap h)
      then (case heap h ! r of DateOf t \<Rightarrow> Some t | Plain ps \<Rightarrow> None)
      else None)"

text \<open>
  What a caller can do with the accessors and with what they return. The caller holds
  references (\<open>handles\<close>): those the accessors have returned and those it has read out
  of a property of an object it holds. With the \<open>i\<close>-th of them it can write or delete
  a property, read a property, or call \<open>setTime\<close>. What it writes is a string, a
  number, \<open>undefined\<close> or a reference it holds. \<open>config\<close> and \<open>sessionInfo\<close> are
  \<open>private\<close>: the caller gets at them through the accessors only.
\<close>

datatype operand = OString string | ONumber int | OUndefined | OHeld nat

fun valueOf :: "operand \<Rightarrow> objects \<Rightarrow> jsValue" where
  "valueOf (OString x) h = JString x"
| "valueOf (ONumber x) h = JNumber x"
| "valueOf OUndefined h = JUndefined"
| "valueOf (OHeld j) h = (if j < length (handles h) then JRef (handles h ! j) else JUndefined)"

datatype callerOp =
    CallGetConfig | CallGetSessionInfo
  | Assign nat string operand
  | Delete nat string
  | Read nat string
  | SetTime nat int

fun perform :: "callerOp \<Rightarrow> objects \<Rightarrow> objects" where
  "perform CallGetConfig h =
     (case getConfig h of (r, h') \<Rightarrow> h'\<lparr>handles := handles h' @ [r]\<rparr>)"
| "perform CallGetSessionInfo h =
     (case getSessionInfo h of (r, h') \<Rightarrow> h'\<lparr>handles := handles h' @ [r]\<rparr>)"
| "perform (Assign i p v) h =
     (if i < length (handles h) then assign (handles h ! i) p (valueOf v h) h else h)"
| "perform (Delete i p) h =
     (if i < length (handles h) then deleteProperty (handles h ! i) p h else h)"
| "perform (Read i p) h =
     (if i < length (handles h)
      then (case map_of (properties (handles h ! i) h) p of
              Some (JRef r) \<Rightarrow> h\<lparr>handles := handles h @ [r]\<rparr>
            | _ \<Rightarrow> h)
      else h)"
| "perform (SetTime i t) h =
     (if i < length (handles h) then setTime (handles h ! i) t h else h)"

definition performAll :: "callerOp list \<Rightarrow> objects \<Rightarrow> objects" where
  "performAll ops h = foldl (\<lambda>h op. perform op h) h ops"

fun isSetTime :: "callerOp \<Rightarrow> bool" where
  "isSetTime (SetTime i t) = True"
| "isSetTime op = False"

text \<open>
  What holds of the heap whatever the caller does: the two records of the orchestrator
  are as the constructors made them, the \<open>Date\<close> is a \<open>Date\<close>, and neither a handle nor
  a reference stored in an object is a reference to \<open>config\<close> or \<open>sessionInfo\<close>.
\<close>

definition sealed :: "objects \<Rightarrow> objects \<Rightarrow> bool" where
  "sealed h0 h \<longleftrightarrow>
     config h = 0 \<and> sessionInfo h = 2 \<and> 3 \<le> length (heap h)
   \<and> heap h ! 0 = heap h0 ! 0 \<and> heap h ! 2 = heap h0 ! 2
   \<and> (\<exists>t. heap h ! 1 = DateOf t)
   \<and> (\<forall>r\<in>set (handles h). r < length (heap h) \<and> r \<noteq> 0 \<and> r \<noteq> 2)
   \<and> (\<forall>i<length (heap h). \<forall>p r. map_of (properties i h) p = Some (JRef r) \<longrightarrow>
          r < length (heap h) \<and> r \<noteq> 0 \<and> r \<noteq> 2)"

lemma listeners_of_setListeners:
  "listeners_of ev' (setListeners ev rs s) = (if ev' = ev then rs else listeners_of ev' s)"
  by (simp add: listeners_of_def setListeners_def update_conv' delete_conv')

lemma listeners_of_frame [simp]:
  "listeners_of ev (s\<lparr>trace := t\<rparr>) = listeners_of ev s"
  "listeners_of ev (s\<lparr>flow := fl\<rparr>) = listeners_of ev s"
  "listeners_of ev (s\<lparr>fired := fi\<rparr>) = listeners_of ev s"
  "listeners_of ev (s\<lparr>warned := wa\<rparr>) = listeners_of ev s"
  "listeners_of ev (s\<lparr>nextWrapper := nw\<rparr>) = listeners_of ev s"
  "listeners_of ev (effect a s) = listeners_of ev s"
  "listeners_of ev (throw e s) = listeners_of ev s"
  "listeners_of ev (throwValue v s) = listeners_of ev s"
  "listeners_of ev (s\<lparr>errorFiles := ef\<rparr>) = listeners_of ev s"
  by (simp_all add: listeners_of_def effect_def throw_def throwValue_def)

lemma setListeners_fields [simp]:
  "flow (setListeners ev rs s) = flow s"
  "trace (setListeners ev rs s) = trace s"
  "fired (setListeners ev rs s) = fired s"
  "nextWrapper (setListeners ev rs s) = nextWrapper s"
  "maxListeners (setListeners ev rs s) = maxListeners s"
  "emitWrapped (setListeners ev rs s) = emitWrapped s"
  "errorFiles (setListeners ev rs s) = errorFiles s"
  by (simp_all add: setListeners_def)

lemma effect_fields [simp]:
  "flow (effect a s) = flow s"
  "trace (effect a s) = trace s @ [a]"
  "fired (effect a s) = fired s"
  "nextWrapper (effect a s) = nextWrapper s"
  "maxListeners (effect a s) = maxListeners s"
  "emitWrapped (effect a s) = emitWrapped s"
  "warned (effect a s) = warned s"
  "events (effect a s) = events s"
  "errorFiles (effect a s) = errorFiles s"
  by (simp_all add: effect_def)

lemma emit_removeListener:
  assumes "listeners_of EvRemoveListener s = [On BusOnRemoveListener]"
  shows "snd (emit (invoke (Suc n)) EvRemoveListener (AEvent ev # as) s) =
     s\<lparr>trace := trace s @ (if emitWrapped s then [BusLogEvent (LnEvent EvRemoveListener) 1] else [])
           @ [Invoke BusOnRemoveListener (AEvent ev # as),
              BusLogListenerRemove ev (int (listenerCount ev s) - 1)]\<rparr>"
  using assms by (simp add: emit_def originalEmit_def listenerCount_def effect_def Let_def)

lemma emit_newListener:
  assumes "listeners_of EvNewListener s = [On BusOnNewListener]"
  shows "snd (emit (invoke (Suc n)) EvNewListener (AEvent ev # as) s) =
     s\<lparr>trace := trace s @ (if emitWrapped s then [BusLogEvent (LnEvent EvNewListener) 1] else [])
           @ [Invoke BusOnNewListener (AEvent ev # as),
              BusLogListenerAdd ev (listenerCount ev s + 1)]\<rparr>"
  using assms by (simp add: emit_def originalEmit_def listenerCount_def effect_def Let_def)

lemma invocations_append [simp]: "invocations (xs @ ys) = invocations xs @ invocations ys"
  by (induction xs rule: invocations.induct) auto

lemma removeLast_append:
  "P r \<Longrightarrow> \<not> list_ex P rs \<Longrightarrow> removeLast P (pre @ r # rs) = pre @ rs"
  by (induction pre) auto

lemma removeLast_none: "\<not> list_ex P rs \<Longrightarrow> removeLast P rs = rs"
  by (induction rs) auto

text \<open>addListener on a bus whose newListener listener is the bookkeeping one\<close>

lemma addListener_char:
  assumes "listeners_of EvNewListener s = [On BusOnNewListener]" "flow s = Normal"
  shows "listeners_of ev' (addListener (invoke (Suc n)) ev r s)
           = (if ev' = ev then listeners_of ev s @ [r] else listeners_of ev' s)"
    and "flow (addListener (invoke (Suc n)) ev r s) = Normal"
    and "fired (addListener (invoke (Suc n)) ev r s) = fired s"
    and "nextWrapper (addListener (invoke (Suc n)) ev r s) = nextWrapper s"
    and "invocations (trace (addListener (invoke (Suc n)) ev r s)) = invocations (trace s)"
  using assms
  by (simp_all add: addListener_def emit_newListener Let_def listeners_of_setListeners)

lemma addListener_fields:
  assumes "listeners_of EvNewListener s = [On BusOnNewListener]" "flow s = Normal"
  shows "events (addListener (invoke (Suc n)) ev r s) =
           AList.update ev (listeners_of ev s @ [r]) (events s)"
    and "emitWrapped (addListener (invoke (Suc n)) ev r s) = emitWrapped s"
    and "maxListeners (addListener (invoke (Suc n)) ev r s) = maxListeners s"
    and "enableLogging (addListener (invoke (Suc n)) ev r s) = enableLogging s"
    and "errorFiles (addListener (invoke (Suc n)) ev r s) = errorFiles s"
  using assms
  by (simp_all add: addListener_def emit_newListener Let_def setListeners_def effect_def)

lemma wids_append [simp]: "wids (xs @ ys) = wids xs @ wids ys"
  by (induction xs rule: wids.induct) auto

lemma matches_wrapper_iff: "list_ex (matches (ByWrapper w l)) rs \<longleftrightarrow> w \<in> set (wids rs)"
  by (induction rs rule: wids.induct) auto

lemma removeListener_absent:
  "\<not> list_ex (matches t) (listeners_of ev s) \<Longrightarrow> removeListener call ev t s = s"
  by (simp add: removeListener_def)

lemma removeListener_char:
  assumes "listeners_of EvRemoveListener s = [On BusOnRemoveListener]"
      and "ev \<noteq> EvRemoveListener"
      and "list_ex (matches t) (listeners_of ev s)"
  shows "removeListener (invoke (Suc n)) ev t s =
     (setListeners ev (removeLast (matches t) (listeners_of ev s)) s)
       \<lparr>trace := trace s
          @ (if emitWrapped s then [BusLogEvent (LnEvent EvRemoveListener) 1] else [])
          @ [Invoke BusOnRemoveListener [AEvent ev, AListener (target_listener t)],
             BusLogListenerRemove ev
               (int (length (removeLast (matches t) (listeners_of ev s))) - 1)]\<rparr>"
  using assms
  by (simp add: removeListener_def Let_def listeners_of_setListeners emit_removeListener
      listenerCount_def)


lemma survivors_Cons:
  "survivors (r # rs) =
     (if isOn r then [r] else []) @ (if throwsOn (listener_of r) then rs else survivors rs)"
  by (simp add: survivors_def)

lemma body_External:
  "body call (External i b) args s =
     (case b of Returns \<Rightarrow> s | Throws e \<Rightarrow> throw e s | ThrowsNull \<Rightarrow> throwValue Null s)"
  by (cases b) simp_all

lemma invoke_external:
  assumes "flow s = Normal"
      and "listeners_of EvRemoveListener s = [On BusOnRemoveListener]"
      and "listeners_of (EvApp k) s = pre @ r # rs"
      and "isExternal (listener_of r)"
      and "distinct (wids (r # rs))"
      and "\<forall>w\<in>set (wids [r]). w \<notin> set (fired s)"
  shows "listeners_of ev (invoke (Suc (Suc n)) r (EvApp k) args s) =
           (if ev = EvApp k then pre @ (if isOn r then [r] else []) @ rs else listeners_of ev s)
       \<and> flow (invoke (Suc (Suc n)) r (EvApp k) args s) = outcome [r]
       \<and> invocations (trace (invoke (Suc (Suc n)) r (EvApp k) args s)) =
           invocations (trace s) @ [(listener_of r, args)]
       \<and> fired (invoke (Suc (Suc n)) r (EvApp k) args s) = wids [r] @ fired s
       \<and> nextWrapper (invoke (Suc (Suc n)) r (EvApp k) args s) = nextWrapper s
       \<and> maxListeners (invoke (Suc (Suc n)) r (EvApp k) args s) = maxListeners s
       \<and> emitWrapped (invoke (Suc (Suc n)) r (EvApp k) args s) = emitWrapped s
       \<and> errorFiles (invoke (Suc (Suc n)) r (EvApp k) args s) = errorFiles s"
proof (cases r)
  case (On l)
  with assms(4) obtain i b where l: "l = External i b" by (cases l) auto
  show ?thesis using assms(1,3) On l
    by (simp add: throw_def throwValue_def body_External split: behaviour.split)
next
  case (Once w l0)
  with assms(4) obtain i b where r: "r = Once w (External i b)" by (cases l0) auto
  define l where "l = External i b"
  define s1 where "s1 = removeListener (invoke (Suc n)) (EvApp k) (ByWrapper w l) s"
  have nf: "w \<notin> set (fired s)" using assms(6) r by simp
  have ex: "list_ex (matches (ByWrapper w l)) (listeners_of (EvApp k) s)"
    using assms(3) r by (simp add: matches_wrapper_iff)
  have "\<not> list_ex (matches (ByWrapper w l)) rs"
    using assms(5) r by (simp add: matches_wrapper_iff)
  then have rl: "removeLast (matches (ByWrapper w l)) (listeners_of (EvApp k) s) = pre @ rs"
    using assms(3) r by (simp add: removeLast_append)
  have rm: "s1 =
     (setListeners (EvApp k) (pre @ rs) s)
       \<lparr>trace := trace s
          @ (if emitWrapped s then [BusLogEvent (LnEvent EvRemoveListener) 1] else [])
          @ [Invoke BusOnRemoveListener [AEvent (EvApp k), AListener l],
             BusLogListenerRemove (EvApp k) (int (length (pre @ rs)) - 1)]\<rparr>"
    unfolding s1_def using removeListener_char [OF assms(2) _ ex, of n] rl by simp
  have p: "flow s1 = Normal" "fired s1 = fired s" "nextWrapper s1 = nextWrapper s"
    "invocations (trace s1) = invocations (trace s)"
    "maxListeners s1 = maxListeners s" "emitWrapped s1 = emitWrapped s"
    "\<And>ev'. listeners_of ev' s1 = (if ev' = EvApp k then pre @ rs else listeners_of ev' s)"
    "errorFiles s1 = errorFiles s"
    using assms(1) by (simp_all add: rm listeners_of_setListeners)
  have inv_eq: "invoke (Suc (Suc n)) r (EvApp k) args s =
      body (invoke (Suc n)) l args (effect (Invoke l args) (s1\<lparr>fired := w # fired s1\<rparr>))"
    using nf p(1) by (simp add: r l_def s1_def Let_def)
  show ?thesis unfolding inv_eq
    by (simp add: p r l_def body_External throw_def throwValue_def split: behaviour.split)
qed


lemma dispatch_external:
  assumes "flow s = Normal"
      and "listeners_of EvRemoveListener s = [On BusOnRemoveListener]"
      and "listeners_of (EvApp k) s = pre @ rs"
      and "list_all (\<lambda>r. isExternal (listener_of r)) rs"
      and "distinct (wids rs)"
      and "\<forall>w\<in>set (wids rs). w \<notin> set (fired s)"
  shows "(\<forall>ev. listeners_of ev (dispatch (invoke (Suc (Suc n))) (EvApp k) args rs s) =
           (if ev = EvApp k then pre @ survivors rs else listeners_of ev s))
       \<and> flow (dispatch (invoke (Suc (Suc n))) (EvApp k) args rs s) = outcome rs
       \<and> invocations (trace (dispatch (invoke (Suc (Suc n))) (EvApp k) args rs s)) =
           invocations (trace s) @ map (\<lambda>r. (listener_of r, args)) (delivered rs)
       \<and> set (fired (dispatch (invoke (Suc (Suc n))) (EvApp k) args rs s)) =
           set (wids (delivered rs)) \<union> set (fired s)
       \<and> nextWrapper (dispatch (invoke (Suc (Suc n))) (EvApp k) args rs s) = nextWrapper s
       \<and> maxListeners (dispatch (invoke (Suc (Suc n))) (EvApp k) args rs s) = maxListeners s
       \<and> emitWrapped (dispatch (invoke (Suc (Suc n))) (EvApp k) args rs s) = emitWrapped s
       \<and> errorFiles (dispatch (invoke (Suc (Suc n))) (EvApp k) args rs s) = errorFiles s"
  using assms
proof (induction rs arbitrary: s pre)
  case Nil
  then show ?case by (simp add: survivors_def)
next
  case (Cons r rs)
  define s1 where "s1 = invoke (Suc (Suc n)) r (EvApp k) args s"
  have ext: "isExternal (listener_of r)" using Cons.prems(4) by simp
  have one: "\<forall>w\<in>set (wids [r]). w \<notin> set (fired s)"
    using Cons.prems(6) by (cases r) auto
  note step = invoke_external [OF Cons.prems(1,2,3) ext Cons.prems(5) one, of _ n args,
      folded s1_def]
  have l1: "\<And>ev. listeners_of ev s1 =
      (if ev = EvApp k then pre @ (if isOn r then [r] else []) @ rs else listeners_of ev s)"
    using step by blast
  have f1: "flow s1 = outcome [r]"
    and t1: "invocations (trace s1) = invocations (trace s) @ [(listener_of r, args)]"
    and w1: "fired s1 = wids [r] @ fired s"
    and n1: "nextWrapper s1 = nextWrapper s"
    and m1: "maxListeners s1 = maxListeners s"
    and g1: "emitWrapped s1 = emitWrapped s"
    and e1: "errorFiles s1 = errorFiles s"
    using step by blast+
  show ?case
  proof (cases "throwsOn (listener_of r)")
    case True
    then have "flow s1 \<noteq> Normal" using f1 ext by simp
    then have d: "dispatch (invoke (Suc (Suc n))) (EvApp k) args (r # rs) s = s1"
      by (simp add: s1_def Let_def)
    show ?thesis unfolding d using True ext
      by (cases r) (simp_all add: l1 f1 t1 w1 n1 m1 g1 e1 survivors_Cons del: invoke.simps)
  next
    case False
    then have fl: "flow s1 = Normal" using f1 ext by simp
    then have d: "dispatch (invoke (Suc (Suc n))) (EvApp k) args (r # rs) s =
        dispatch (invoke (Suc (Suc n))) (EvApp k) args rs s1"
      by (simp add: s1_def Let_def)
    have a2: "listeners_of EvRemoveListener s1 = [On BusOnRemoveListener]"
      using Cons.prems(2) by (simp add: l1)
    have a3: "listeners_of (EvApp k) s1 = (pre @ (if isOn r then [r] else [])) @ rs"
      by (simp add: l1)
    have a4: "list_all (\<lambda>r. isExternal (listener_of r)) rs" using Cons.prems(4) by simp
    have a5: "distinct (wids rs)" using Cons.prems(5) by (cases r) auto
    have a6: "\<forall>w\<in>set (wids rs). w \<notin> set (fired s1)"
      using Cons.prems(5,6) by (cases r) (auto simp: w1)
    note ih = Cons.IH [OF fl a2 a3 a4 a5 a6]
    show ?thesis unfolding d using False ext ih
      by (cases r) (auto simp: l1 t1 w1 n1 m1 g1 e1 survivors_Cons simp del: invoke.simps)
  qed
qed


lemma delivered_undelivered: "delivered rs @ undelivered rs = rs"
  by (induction rs) auto

lemma wids_filter_isOn [simp]: "wids (filter isOn rs) = []"
  by (induction rs rule: wids.induct) auto

lemma wids_survivors: "wids (survivors rs) = wids (undelivered rs)"
  by (simp add: survivors_def)

lemma wids_split: "wids rs = wids (delivered rs) @ wids (undelivered rs)"
  by (metis delivered_undelivered wids_append)

lemma set_survivors: "set (survivors rs) \<subseteq> set rs"
proof -
  have "set (survivors rs) \<subseteq> set (delivered rs) \<union> set (undelivered rs)"
    by (auto simp: survivors_def)
  also have "\<dots> = set (delivered rs @ undelivered rs)" by simp
  finally show ?thesis by (simp add: delivered_undelivered)
qed

lemma logError_fields [simp]:
  "listeners_of ev (logError nm v s) = listeners_of ev s"
  "fired (logError nm v s) = fired s"
  "nextWrapper (logError nm v s) = nextWrapper s"
  "maxListeners (logError nm v s) = maxListeners s"
  "emitWrapped (logError nm v s) = emitWrapped s"
  "errorFiles (logError nm v s) = errorFiles s"
  "invocations (trace (logError nm v s)) = invocations (trace s)"
  by (simp_all add: logError_def throw_def throwValue_def effect_def listeners_of_def
      split: thrown.split)

lemma logError_flow:
  "flow s = Normal \<Longrightarrow> flow (logError nm v s) = reported v (errorFiles s)"
  by (simp add: logError_def reported_def throw_def throwValue_def effect_def
      split: thrown.split)

lemma logError_returns:
  "flow s = Normal \<Longrightarrow> \<not> errorFiles s \<Longrightarrow>
     logError nm (ErrorObject e) s = effect (BusLogError nm e) s"
  by (simp add: logError_def)

lemma emitTyped_char:
  fixes s :: world and k :: appEvent and n :: nat and args :: "arg list"
  assumes "bus_inv s"
  defines "rs \<equiv> listeners_of (EvApp k) s"
  defines "res \<equiv> emitTyped (invoke (Suc (Suc n))) k args s"
  shows "fst res = (rs \<noteq> [] \<and> outcome rs = Normal)"
    and "\<And>ev. listeners_of ev (snd res) = (if ev = EvApp k then survivors rs else listeners_of ev s)"
    and "flow (snd res) = (case outcome rs of Thrown v \<Rightarrow> reported v (errorFiles s) | _ \<Rightarrow> Normal)"
    and "invocations (trace (snd res)) =
           invocations (trace s) @ map (\<lambda>r. (listener_of r, args)) (delivered rs)"
    and "set (fired (snd res)) = set (wids (delivered rs)) \<union> set (fired s)"
    and "nextWrapper (snd res) = nextWrapper s"
    and "\<And>e. outcome rs = Thrown (ErrorObject e) \<Longrightarrow>
           last (trace (snd res)) = BusLogError (LnEvent (EvApp k)) e"
    and "maxListeners (snd res) = maxListeners s"
    and "emitWrapped (snd res) = emitWrapped s"
    and "errorFiles (snd res) = errorFiles s"
proof -
  define sP where "sP = (if emitWrapped s
      then effect (BusLogEvent (LnEvent (EvApp k)) (listenerCount (EvApp k) s)) (effect (Publish k args) s)
      else effect (Publish k args) s)"
  define D where "D = dispatch (invoke (Suc (Suc n))) (EvApp k) args rs sP"
  have sP: "flow sP = Normal" "\<And>ev. listeners_of ev sP = listeners_of ev s"
    "fired sP = fired s" "nextWrapper sP = nextWrapper s"
    "invocations (trace sP) = invocations (trace s)"
    "maxListeners sP = maxListeners s" "emitWrapped sP = emitWrapped s"
    "errorFiles sP = errorFiles s"
    using assms(1) by (simp_all add: sP_def bus_inv_def)
  have em: "emit (invoke (Suc (Suc n))) (EvApp k) args (effect (Publish k args) s) = (rs \<noteq> [], D)"
    by (cases rs) (simp_all add: emit_def originalEmit_def D_def sP_def rs_def listenerCount_def
        del: invoke.simps)
  have d: "(\<forall>ev. listeners_of ev D = (if ev = EvApp k then [] @ survivors rs else listeners_of ev sP))
       \<and> flow D = outcome rs
       \<and> invocations (trace D) = invocations (trace sP) @ map (\<lambda>r. (listener_of r, args)) (delivered rs)
       \<and> set (fired D) = set (wids (delivered rs)) \<union> set (fired sP)
       \<and> nextWrapper D = nextWrapper sP
       \<and> maxListeners D = maxListeners sP
       \<and> emitWrapped D = emitWrapped sP
       \<and> errorFiles D = errorFiles sP"
    unfolding D_def
    using assms(1) by (intro dispatch_external) (simp_all add: sP bus_inv_def rs_def)
  have o: "outcome rs = Normal \<or> (\<exists>v. outcome rs = Thrown v)"
    by (induction rs) auto
  define L where "L v = logError (LnEvent (EvApp k)) v (D\<lparr>flow := Normal\<rparr>)" for v
  have res: "res = (case flow D of
        Thrown v \<Rightarrow> (False, L v)
      | _ \<Rightarrow> (rs \<noteq> [], D))"
    by (simp add: res_def emitTyped_def em Let_def L_def del: invoke.simps split: flow.split)
  have Lf: "flow (L v) = reported v (errorFiles s)" for v
    unfolding L_def using logError_flow [of "D\<lparr>flow := Normal\<rparr>"] d by (simp add: sP)
  have Ll: "listeners_of ev (L v) = listeners_of ev D" "fired (L v) = fired D"
    "nextWrapper (L v) = nextWrapper D" "maxListeners (L v) = maxListeners D"
    "emitWrapped (L v) = emitWrapped D" "errorFiles (L v) = errorFiles D"
    "invocations (trace (L v)) = invocations (trace D)" for ev v
    by (simp_all add: L_def)
  show "fst res = (rs \<noteq> [] \<and> outcome rs = Normal)"
    using o d by (auto simp: res)
  show "\<And>ev. listeners_of ev (snd res) = (if ev = EvApp k then survivors rs else listeners_of ev s)"
    using o d by (auto simp: res sP Ll)
  show "flow (snd res) = (case outcome rs of Thrown v \<Rightarrow> reported v (errorFiles s) | _ \<Rightarrow> Normal)"
    using o d by (auto simp: res Lf)
  show "invocations (trace (snd res)) =
           invocations (trace s) @ map (\<lambda>r. (listener_of r, args)) (delivered rs)"
    using o d by (auto simp: res sP Ll)
  show "set (fired (snd res)) = set (wids (delivered rs)) \<union> set (fired s)"
    using o d by (auto simp: res sP Ll)
  show "nextWrapper (snd res) = nextWrapper s" using o d by (auto simp: res sP Ll)
  show "\<And>e. outcome rs = Thrown (ErrorObject e) \<Longrightarrow>
           last (trace (snd res)) = BusLogError (LnEvent (EvApp k)) e"
    using d by (auto simp: res L_def logError_def throw_def throwValue_def effect_def)
  show "maxListeners (snd res) = maxListeners s" using o d by (auto simp: res sP Ll)
  show "emitWrapped (snd res) = emitWrapped s" using o d by (auto simp: res sP Ll)
  show "errorFiles (snd res) = errorFiles s" using o d by (auto simp: res sP Ll)
qed


lemma addListener_first:
  assumes "listeners_of EvNewListener s = []" "listeners_of ev s = []" "flow s = Normal"
  shows "addListener call ev r s = setListeners ev [r] s"
  using assms by (auto simp: addListener_def Let_def)

lemma seq_Cons_Normal: "flow (f s) = Normal \<Longrightarrow> seq (f # fs) s = seq fs (f s)"
  by (simp add: Let_def)

lemma newEventBus_from:
  fixes n m lg p
  assumes p: "flow p = Normal" "fired p = []" "nextWrapper p = 0"
  defines "b \<equiv> newEventBus (invoke (Suc n)) m lg p"
  shows "events b = [(EvError, [On BusOnError]), (EvNewListener, [On BusOnNewListener]),
                     (EvRemoveListener, [On BusOnRemoveListener])]"
    and "flow b = Normal" and "fired b = []" and "nextWrapper b = 0"
    and "maxListeners b = m" and "emitWrapped b = lg" and "errorFiles b = errorFiles p"
proof -
  define s0 where "s0 = p\<lparr>events := [], warned := [], maxListeners := m,
      enableLogging := lg, emitWrapped := False\<rparr>"
  define s1 where "s1 = on (invoke (Suc n)) EvError BusOnError s0"
  define s2 where "s2 = on (invoke (Suc n)) EvNewListener BusOnNewListener s1"
  define s3 where "s3 = on (invoke (Suc n)) EvRemoveListener BusOnRemoveListener s2"
  have e0: "events s0 = []" "flow s0 = Normal" "fired s0 = []" "nextWrapper s0 = 0"
    "maxListeners s0 = m" "emitWrapped s0 = False" "enableLogging s0 = lg"
    "errorFiles s0 = errorFiles p"
    using p by (simp_all add: s0_def)
  have s1: "s1 = setListeners EvError [On BusOnError] s0"
    unfolding s1_def on_def by (rule addListener_first) (simp_all add: listeners_of_def e0)
  have e1: "events s1 = [(EvError, [On BusOnError])]" "flow s1 = Normal" "fired s1 = []"
    "nextWrapper s1 = 0" "maxListeners s1 = m" "emitWrapped s1 = False" "enableLogging s1 = lg"
    "errorFiles s1 = errorFiles p"
    by (simp_all add: s1 e0 setListeners_def)
  have s2: "s2 = setListeners EvNewListener [On BusOnNewListener] s1"
    unfolding s2_def on_def by (rule addListener_first) (simp_all add: listeners_of_def e1)
  have e2: "events s2 = [(EvError, [On BusOnError]), (EvNewListener, [On BusOnNewListener])]"
    "flow s2 = Normal" "fired s2 = []" "nextWrapper s2 = 0" "maxListeners s2 = m"
    "emitWrapped s2 = False" "enableLogging s2 = lg" "errorFiles s2 = errorFiles p"
    by (simp_all add: s2 e1 setListeners_def)
  have l2: "listeners_of EvNewListener s2 = [On BusOnNewListener]"
    "listeners_of EvRemoveListener s2 = []"
    by (simp_all add: listeners_of_def e2)
  have e3: "events s3 = [(EvError, [On BusOnError]), (EvNewListener, [On BusOnNewListener]),
      (EvRemoveListener, [On BusOnRemoveListener])]"
    "flow s3 = Normal" "fired s3 = []" "nextWrapper s3 = 0" "maxListeners s3 = m"
    "emitWrapped s3 = False" "errorFiles s3 = errorFiles p"
    unfolding s3_def on_def
    by (simp_all add: addListener_char [OF l2(1) e2(2)] addListener_fields [OF l2(1) e2(2)]
        e2 l2 del: invoke.simps)
  have en3: "enableLogging s3 = lg"
    unfolding s3_def on_def
    by (simp add: addListener_fields [OF l2(1) e2(2)] e2 del: invoke.simps)
  have b: "b = effect (BusLogEvent LnInitialized 0) (setupEventLogging s3)"
    unfolding b_def newEventBus_def setupErrorHandling_def
    by (simp add: Let_def s0_def [symmetric] s1_def [symmetric] s2_def [symmetric]
        s3_def [symmetric] e0 e1 e2 e3 setupEventLogging_def del: invoke.simps)
  show "events b = [(EvError, [On BusOnError]), (EvNewListener, [On BusOnNewListener]),
                     (EvRemoveListener, [On BusOnRemoveListener])]"
    and "flow b = Normal" and "fired b = []" and "nextWrapper b = 0"
    and "maxListeners b = m" and "emitWrapped b = lg" and "errorFiles b = errorFiles p"
    by (simp_all add: b setupEventLogging_def e3 en3)
qed

lemma processStart_fields:
  "flow (processStart env) = Normal" "fired (processStart env) = []"
  "nextWrapper (processStart env) = 0" "errorFiles (processStart env) = False"
  by (simp_all add: processStart_def)

lemma newEventBus_events:
  fixes n m lg env
  defines "b \<equiv> newEventBus (invoke (Suc n)) m lg (processStart env)"
  shows "events b = [(EvError, [On BusOnError]), (EvNewListener, [On BusOnNewListener]),
                     (EvRemoveListener, [On BusOnRemoveListener])]"
    and "flow b = Normal" and "fired b = []" and "nextWrapper b = 0"
    and "maxListeners b = m" and "emitWrapped b = lg"
proof -
  note a = newEventBus_from [OF processStart_fields(1,2,3), where n=n and m=m and lg=lg]
  show "events b = [(EvError, [On BusOnError]), (EvNewListener, [On BusOnNewListener]),
                     (EvRemoveListener, [On BusOnRemoveListener])]"
    and "flow b = Normal" and "fired b = []" and "nextWrapper b = 0"
    and "maxListeners b = m" and "emitWrapped b = lg"
    unfolding b_def using a by simp_all
qed

lemma newEventBus_events_files:
  fixes n m lg env f
  defines "b \<equiv> newEventBus (invoke (Suc n)) m lg ((processStart env)\<lparr>errorFiles := f\<rparr>)"
  shows "events b = [(EvError, [On BusOnError]), (EvNewListener, [On BusOnNewListener]),
                     (EvRemoveListener, [On BusOnRemoveListener])]"
    and "flow b = Normal" and "fired b = []" and "nextWrapper b = 0"
    and "maxListeners b = m" and "emitWrapped b = lg" and "errorFiles b = f"
proof -
  have p: "flow ((processStart env)\<lparr>errorFiles := f\<rparr>) = Normal"
    "fired ((processStart env)\<lparr>errorFiles := f\<rparr>) = []"
    "nextWrapper ((processStart env)\<lparr>errorFiles := f\<rparr>) = 0"
    by (simp_all add: processStart_fields)
  note a = newEventBus_from [OF p, of n m lg]
  show "events b = [(EvError, [On BusOnError]), (EvNewListener, [On BusOnNewListener]),
                     (EvRemoveListener, [On BusOnRemoveListener])]"
    and "flow b = Normal" and "fired b = []" and "nextWrapper b = 0"
    and "maxListeners b = m" and "emitWrapped b = lg" and "errorFiles b = f"
    unfolding b_def using a by simp_all
qed


lemma removeLast_split:
  "list_ex P rs \<Longrightarrow>
   \<exists>xs r ys. rs = xs @ r # ys \<and> P r \<and> \<not> list_ex P ys \<and> removeLast P rs = xs @ ys"
proof (induction rs)
  case Nil
  then show ?case by simp
next
  case (Cons a rs)
  show ?case
  proof (cases "list_ex P rs")
    case True
    from Cons.IH [OF True] obtain xs r ys
      where "rs = xs @ r # ys" "P r" "\<not> list_ex P ys" "removeLast P rs = xs @ ys" by blast
    then have "a # rs = (a # xs) @ r # ys \<and> P r \<and> \<not> list_ex P ys
        \<and> removeLast P (a # rs) = (a # xs) @ ys"
      using True by simp
    then show ?thesis by blast
  next
    case False
    then have "P a" using Cons.prems by simp
    then have "a # rs = [] @ a # rs \<and> P a \<and> \<not> list_ex P rs \<and> removeLast P (a # rs) = [] @ rs"
      using False by simp
    then show ?thesis by blast
  qed
qed

lemma removeLast_sub:
  shows "set (removeLast P rs) \<subseteq> set rs"
    and "set (wids (removeLast P rs)) \<subseteq> set (wids rs)"
    and "distinct (wids rs) \<Longrightarrow> distinct (wids (removeLast P rs))"
proof -
  consider "\<not> list_ex P rs" | xs r ys where "rs = xs @ r # ys" "removeLast P rs = xs @ ys"
    using removeLast_split [of P rs] by blast
  then have "set (removeLast P rs) \<subseteq> set rs \<and> set (wids (removeLast P rs)) \<subseteq> set (wids rs)
      \<and> (distinct (wids rs) \<longrightarrow> distinct (wids (removeLast P rs)))"
  proof cases
    case 1
    then show ?thesis by (simp add: removeLast_none)
  next
    case 2
    then show ?thesis by (cases r) auto
  qed
  then show "set (removeLast P rs) \<subseteq> set rs"
    and "set (wids (removeLast P rs)) \<subseteq> set (wids rs)"
    and "distinct (wids rs) \<Longrightarrow> distinct (wids (removeLast P rs))" by blast+
qed

lemma matches_ByListener: "matches (ByListener l) = (\<lambda>r. listener_of r = l)"
proof
  fix r show "matches (ByListener l) r = (listener_of r = l)" by (cases r) auto
qed

lemma offTyped_char:
  fixes s :: world and k :: appEvent and n :: nat and l :: listener
  assumes "bus_inv s"
  defines "s' \<equiv> offTyped (invoke (Suc n)) k l s"
  shows "\<And>ev. listeners_of ev s' =
           (if ev = EvApp k then removeLast (\<lambda>r. listener_of r = l) (listeners_of (EvApp k) s)
            else listeners_of ev s)"
    and "flow s' = Normal" and "fired s' = fired s" and "nextWrapper s' = nextWrapper s"
    and "invocations (trace s') = invocations (trace s)"
    and "maxListeners s' = maxListeners s" and "emitWrapped s' = emitWrapped s"
    and "errorFiles s' = errorFiles s"
proof -
  have rl: "listeners_of EvRemoveListener s = [On BusOnRemoveListener]" and fl: "flow s = Normal"
    using assms(1) by (simp_all add: bus_inv_def)
  have all: "(\<forall>ev. listeners_of ev s' =
           (if ev = EvApp k then removeLast (\<lambda>r. listener_of r = l) (listeners_of (EvApp k) s)
            else listeners_of ev s))
       \<and> flow s' = Normal \<and> fired s' = fired s \<and> nextWrapper s' = nextWrapper s
       \<and> invocations (trace s') = invocations (trace s)
       \<and> maxListeners s' = maxListeners s \<and> emitWrapped s' = emitWrapped s
       \<and> errorFiles s' = errorFiles s"
  proof (cases "list_ex (matches (ByListener l)) (listeners_of (EvApp k) s)")
    case True
    have "s' = removeListener (invoke (Suc n)) (EvApp k) (ByListener l) s"
      by (simp add: s'_def offTyped_def off_def)
    then show ?thesis
      unfolding removeListener_char [OF rl _ True, of n, simplified]
      using fl by (simp add: listeners_of_setListeners matches_ByListener)
  next
    case False
    then have "s' = s" by (simp add: s'_def offTyped_def off_def removeListener_absent)
    then show ?thesis
      using False fl by (simp add: removeLast_none matches_ByListener)
  qed
  show "\<And>ev. listeners_of ev s' =
           (if ev = EvApp k then removeLast (\<lambda>r. listener_of r = l) (listeners_of (EvApp k) s)
            else listeners_of ev s)"
    and "flow s' = Normal" and "fired s' = fired s" and "nextWrapper s' = nextWrapper s"
    and "invocations (trace s') = invocations (trace s)"
    and "maxListeners s' = maxListeners s" and "emitWrapped s' = emitWrapped s"
    and "errorFiles s' = errorFiles s"
    using all by blast+
qed


lemma bus_inv_new:
  "bus_inv (newEventBus (invoke (Suc n)) m lg ((processStart env)\<lparr>errorFiles := f\<rparr>))"
  by (simp add: bus_inv_def listeners_of_def newEventBus_events_files)

lemma bus_inv_onTyped:
  assumes "bus_inv s" "isExternal l"
  shows "bus_inv (onTyped (invoke (Suc n)) k l s)"
proof -
  have a: "listeners_of EvNewListener s = [On BusOnNewListener]" "flow s = Normal"
    using assms(1) by (simp_all add: bus_inv_def)
  show ?thesis
    using assms unfolding onTyped_def on_def
    by (auto simp: bus_inv_def addListener_char [OF a] list_all_iff simp del: invoke.simps)
qed

lemma bus_inv_onceTyped:
  assumes "bus_inv s" "isExternal l"
  shows "bus_inv (onceTyped (invoke (Suc n)) k l s)"
proof -
  define sN where "sN = s\<lparr>nextWrapper := Suc (nextWrapper s)\<rparr>"
  have a: "listeners_of EvNewListener sN = [On BusOnNewListener]" "flow sN = Normal"
    using assms(1) by (simp_all add: bus_inv_def sN_def)
  have b: "\<And>ev. listeners_of ev sN = listeners_of ev s" "fired sN = fired s"
    "nextWrapper sN = Suc (nextWrapper s)"
    by (simp_all add: sN_def)
  have c: "onceTyped (invoke (Suc n)) k l s =
      addListener (invoke (Suc n)) (EvApp k) (Once (nextWrapper s) l) sN"
    by (simp add: onceTyped_def once_def sN_def)
  show ?thesis
    using assms unfolding c
    by (fastforce simp: bus_inv_def addListener_char [OF a] b list_all_iff
        simp del: invoke.simps)
qed

lemma bus_inv_offTyped:
  assumes "bus_inv s"
  shows "bus_inv (offTyped (invoke (Suc n)) k l s)"
proof -
  note c = offTyped_char [OF assms, where k=k and l=l and n=n]
  have sub: "\<And>P (rs :: registration list). set (removeLast P rs) \<subseteq> set rs"
    "\<And>P rs. set (wids (removeLast P rs)) \<subseteq> set (wids rs)"
    "\<And>P rs. distinct (wids rs) \<Longrightarrow> distinct (wids (removeLast P rs))"
    by (simp_all add: removeLast_sub)
  show ?thesis
    using assms sub unfolding bus_inv_def c list_all_iff
    by (auto simp del: invoke.simps) blast+
qed


lemma flow_Normal_same: "flow s = Normal \<Longrightarrow> s\<lparr>flow := Normal\<rparr> = s"
  by (cases s) simp

lemma caught_char:
  "caught f s = (case flow (f s) of Thrown v \<Rightarrow> (f s)\<lparr>flow := Normal\<rparr> | _ \<Rightarrow> f s)"
  by (simp add: caught_def tryCatch_def Let_def)

lemma publish_flow:
  assumes "bus_inv s"
  shows "flow (publish (invoke (Suc (Suc n))) k args s) = Normal
       \<or> (\<exists>v. flow (publish (invoke (Suc (Suc n))) k args s) = Thrown v)"
  unfolding publish_def emitTyped_char(3) [OF assms]
  by (auto simp add: reported_def split: flow.split thrown.split)

lemma caught_publish:
  assumes "bus_inv s"
  shows "caught (publish (invoke (Suc (Suc n))) k args) s =
           (publish (invoke (Suc (Suc n))) k args s)\<lparr>flow := Normal\<rparr>"
proof -
  from publish_flow [OF assms, of n k args]
  show ?thesis
  proof
    assume a: "flow (publish (invoke (Suc (Suc n))) k args s) = Normal"
    have "(publish (invoke (Suc (Suc n))) k args s)\<lparr>flow := Normal\<rparr> =
        publish (invoke (Suc (Suc n))) k args s"
      by (rule flow_Normal_same [OF a])
    then show ?thesis unfolding caught_char a by simp
  next
    assume "\<exists>v. flow (publish (invoke (Suc (Suc n))) k args s) = Thrown v"
    then obtain v where a: "flow (publish (invoke (Suc (Suc n))) k args s) = Thrown v" by blast
    show ?thesis unfolding caught_char a by simp
  qed
qed

lemma bus_inv_publish:
  assumes "bus_inv s"
  shows "bus_inv (caught (publish (invoke (Suc (Suc n))) k args) s)"
proof -
  define rs where "rs = listeners_of (EvApp k) s"
  define s' where "s' = caught (publish (invoke (Suc (Suc n))) k args) s"
  have eq: "s' = (snd (emitTyped (invoke (Suc (Suc n))) k args s))\<lparr>flow := Normal\<rparr>"
    unfolding s'_def caught_publish [OF assms] by (simp only: publish_def)
  have L: "\<And>ev. listeners_of ev s' = (if ev = EvApp k then survivors rs else listeners_of ev s)"
    unfolding eq rs_def by (simp add: emitTyped_char(2) [OF assms] del: invoke.simps)
  have W: "set (fired s') = set (wids (delivered rs)) \<union> set (fired s)"
    unfolding eq rs_def by (simp add: emitTyped_char(5) [OF assms] del: invoke.simps)
  have N: "nextWrapper s' = nextWrapper s"
    unfolding eq by (simp add: emitTyped_char(6) [OF assms] del: invoke.simps)
  have d: "distinct (wids rs)" using assms by (simp add: bus_inv_def rs_def)
  then have dis: "set (wids (delivered rs)) \<inter> set (wids (undelivered rs)) = {}"
    and sub1: "set (wids (delivered rs)) \<subseteq> set (wids rs)"
    and sub2: "set (wids (undelivered rs)) \<subseteq> set (wids rs)"
    and d2: "distinct (wids (undelivered rs))"
    using wids_split [of rs] by auto
  have ext: "list_all (\<lambda>r. isExternal (listener_of r)) (survivors rs)"
    using assms set_survivors [of rs] by (auto simp: bus_inv_def rs_def list_all_iff)
  have old: "\<And>k' w. w \<in> set (wids (listeners_of (EvApp k') s)) \<Longrightarrow>
      w \<notin> set (fired s) \<and> w < nextWrapper s"
    using assms by (simp add: bus_inv_def)
  have other: "\<And>k' w. k' \<noteq> k \<Longrightarrow> w \<in> set (wids (listeners_of (EvApp k') s)) \<Longrightarrow>
      w \<notin> set (wids rs)"
    using assms unfolding bus_inv_def rs_def by blast
  have i1: "flow s' = Normal" unfolding eq by simp
  have i2: "listeners_of EvNewListener s' = [On BusOnNewListener]"
    "listeners_of EvRemoveListener s' = [On BusOnRemoveListener]"
    using assms by (simp_all add: L bus_inv_def)
  have i4: "list_all (\<lambda>r. isExternal (listener_of r)) (listeners_of (EvApp k') s')
      \<and> distinct (wids (listeners_of (EvApp k') s'))
      \<and> (\<forall>w\<in>set (wids (listeners_of (EvApp k') s')). w \<notin> set (fired s') \<and> w < nextWrapper s')"
    for k'
  proof (cases "k' = k")
    case True
    have "\<forall>w\<in>set (wids (undelivered rs)). w \<notin> set (fired s') \<and> w < nextWrapper s'"
      using dis sub2 old [of _ k] unfolding W N rs_def by blast
    then show ?thesis using True ext d2 by (simp add: L wids_survivors)
  next
    case False
    have "\<forall>w\<in>set (wids (listeners_of (EvApp k') s)). w \<notin> set (fired s') \<and> w < nextWrapper s'"
      using old [of _ k'] other [OF False] sub1 unfolding W N by blast
    then show ?thesis using False assms by (simp add: L bus_inv_def)
  qed
  have i5: "set (wids (listeners_of (EvApp k1) s')) \<inter> set (wids (listeners_of (EvApp k2) s')) = {}"
    if "k1 \<noteq> k2" for k1 k2
  proof -
    have sub: "\<And>k'. set (wids (listeners_of (EvApp k') s')) \<subseteq> set (wids (listeners_of (EvApp k') s))"
      using sub2 by (simp add: L wids_survivors rs_def)
    have "set (wids (listeners_of (EvApp k1) s)) \<inter> set (wids (listeners_of (EvApp k2) s)) = {}"
      using assms that unfolding bus_inv_def by blast
    then show ?thesis using sub [of k1] sub [of k2] by blast
  qed
  have i6: "\<forall>w\<in>set (fired s'). w < nextWrapper s'"
  proof -
    have "\<forall>w\<in>set (fired s). w < nextWrapper s" using assms by (simp add: bus_inv_def)
    then show ?thesis using sub1 old [of _ k] unfolding W N rs_def by blast
  qed
  show ?thesis
    unfolding bus_inv_def s'_def [symmetric] using i1 i2 i4 i5 i6 by blast
qed

lemma bus_inv_applyCall: "bus_inv s \<Longrightarrow> bus_inv (applyCall (Suc (Suc n)) c s)"
  by (cases c)
    (simp_all add: bus_inv_onTyped bus_inv_onceTyped bus_inv_offTyped bus_inv_publish
      del: invoke.simps)

lemma busAfter_snoc: "busAfter n files m lg (cs @ [c]) = applyCall n c (busAfter n files m lg cs)"
  by (simp add: busAfter_def)

lemma bus_inv_busAfter: "bus_inv (busAfter (Suc (Suc n)) files m lg cs)"
proof (induction cs rule: rev_induct)
  case Nil
  show ?case unfolding busAfter_def by (simp add: bus_inv_new del: invoke.simps)
next
  case (snoc c cs)
  then show ?case by (simp add: busAfter_snoc bus_inv_applyCall del: invoke.simps)
qed


lemma addListener_trace:
  assumes "listeners_of EvNewListener s = [On BusOnNewListener]" "flow s = Normal"
  shows "trace (addListener (invoke (Suc n)) ev r s) =
     trace s
     @ (if emitWrapped s then [BusLogEvent (LnEvent EvNewListener) 1] else [])
     @ [Invoke BusOnNewListener [AEvent ev, AListener (listener_of r)],
        BusLogListenerAdd ev (listenerCount ev s + 1)]
     @ (if 0 < maxListeners s \<and> maxListeners s \<le> listenerCount ev s \<and> ev \<notin> set (warned s)
        then [MaxListenersWarning ev (listenerCount ev s + 1)] else [])"
proof (cases "listeners_of ev s")
  case Nil
  then show ?thesis using assms
    by (auto simp: addListener_def emit_newListener Let_def listenerCount_def)
next
  case (Cons a as)
  then show ?thesis using assms
    by (auto simp: addListener_def emit_newListener Let_def listenerCount_def setListeners_def
        effect_def)
qed

lemma config_applyCall:
  assumes "bus_inv s"
  shows "maxListeners (applyCall (Suc (Suc n)) c s) = maxListeners s
       \<and> emitWrapped (applyCall (Suc (Suc n)) c s) = emitWrapped s
       \<and> errorFiles (applyCall (Suc (Suc n)) c s) = errorFiles s"
proof -
  have a: "listeners_of EvNewListener s = [On BusOnNewListener]" "flow s = Normal"
    using assms by (simp_all add: bus_inv_def)
  have a': "listeners_of EvNewListener (s\<lparr>nextWrapper := Suc (nextWrapper s)\<rparr>) = [On BusOnNewListener]"
    "flow (s\<lparr>nextWrapper := Suc (nextWrapper s)\<rparr>) = Normal"
    using a by simp_all
  show ?thesis
  proof (cases c)
    case (Subscribe k i b)
    then show ?thesis by (simp add: onTyped_def on_def addListener_fields [OF a] del: invoke.simps)
  next
    case (SubscribeOnce k i b)
    then show ?thesis
      by (simp add: onceTyped_def once_def addListener_fields [OF a'] del: invoke.simps)
  next
    case (Unsubscribe k i b)
    then show ?thesis by (simp add: offTyped_char [OF assms] del: invoke.simps)
  next
    case (PublishCall k args)
    then show ?thesis
      by (simp add: caught_publish [OF assms] publish_def emitTyped_char [OF assms]
          del: invoke.simps)
  qed
qed

lemma config_busAfter:
  "maxListeners (busAfter (Suc (Suc n)) files m lg cs) = m
   \<and> emitWrapped (busAfter (Suc (Suc n)) files m lg cs) = lg
   \<and> errorFiles (busAfter (Suc (Suc n)) files m lg cs) = files"
proof (induction cs rule: rev_induct)
  case Nil
  show ?case unfolding busAfter_def by (simp add: newEventBus_events_files del: invoke.simps)
next
  case (snoc c cs)
  then show ?case
    using config_applyCall [OF bus_inv_busAfter, where n=n and c=c]
    by (simp add: busAfter_snoc del: invoke.simps)
qed

lemma quiet_fanout:
  "list_all (\<lambda>r. \<not> throwsOn (listener_of r)) rs \<Longrightarrow>
   delivered rs = rs \<and> outcome rs = Normal \<and> survivors rs = filter isOn rs"
  by (induction rs) (auto simp: survivors_def)


text \<open>
  C1 (as amended). On every bus reached from a new one by calls of the typed methods,
  and for every kind \<open>k\<close> whose registered listeners all return: \<open>emitTyped k args\<close> calls
  each registered listener once, in registration order, with \<open>args\<close>; it returns
  \<open>true\<close> exactly when a listener was registered; it does not throw; the \<open>once\<close>
  registrations of \<open>k\<close> are gone afterwards and the other kinds keep theirs. With no
  registration it calls nothing and returns \<open>false\<close>.
\<close>

theorem C1_emitTyped_calls_all_in_order:
  fixes n m :: nat and files lg :: bool and cs :: "busCall list" and k :: appEvent and args :: "arg list"
  defines "s \<equiv> busAfter (Suc (Suc n)) files m lg cs"
  defines "r \<equiv> emitTyped (invoke (Suc (Suc n))) k args s"
  assumes quiet: "list_all (\<lambda>x. \<not> throwsOn (listener_of x)) (listeners_of (EvApp k) s)"
  shows "invocations (trace (snd r)) =
           invocations (trace s) @ map (\<lambda>x. (listener_of x, args)) (listeners_of (EvApp k) s)
       \<and> fst r = (listeners_of (EvApp k) s \<noteq> [])
       \<and> flow (snd r) = Normal
       \<and> listeners_of (EvApp k) (snd r) = filter isOn (listeners_of (EvApp k) s)
       \<and> (\<forall>ev. ev \<noteq> EvApp k \<longrightarrow> listeners_of ev (snd r) = listeners_of ev s)"
proof -
  have inv: "bus_inv s" unfolding s_def by (rule bus_inv_busAfter)
  note q = quiet_fanout [OF quiet]
  note c = emitTyped_char [OF inv, where k=k and n=n and args=args, folded r_def]
  show ?thesis using c(1-4) q by simp
qed


theorem C1_witness:
  "list_all (\<lambda>x. \<not> throwsOn (listener_of x))
     (listeners_of (EvApp TerminalResize)
       (busAfter (Suc (Suc 0)) False 50 True
         [Subscribe TerminalResize 1 Returns, Subscribe TerminalResize 2 Returns]))
   \<and> invocations (trace (snd (emitTyped (invoke (Suc (Suc 0))) TerminalResize [ANum 80, ANum 24]
        (busAfter (Suc (Suc 0)) False 50 True
          [Subscribe TerminalResize 1 Returns, Subscribe TerminalResize 2 Returns]))))
       = [(External 1 Returns, [ANum 80, ANum 24]), (External 2 Returns, [ANum 80, ANum 24])]
   \<and> fst (emitTyped (invoke (Suc (Suc 0))) TerminalResize [ANum 80, ANum 24]
        (busAfter (Suc (Suc 0)) False 50 True
          [Subscribe TerminalResize 1 Returns, Subscribe TerminalResize 2 Returns]))"
proof -
  define s where "s = busAfter (Suc (Suc 0)) False 50 True
      [Subscribe TerminalResize 1 Returns, Subscribe TerminalResize 2 Returns]"
  have h: "list_all (\<lambda>x. \<not> throwsOn (listener_of x)) (listeners_of (EvApp TerminalResize) s)"
    unfolding s_def by code_simp
  have e: "invocations (trace s) @ map (\<lambda>x. (listener_of x, [ANum 80, ANum 24]))
        (listeners_of (EvApp TerminalResize) s)
      = [(External 1 Returns, [ANum 80, ANum 24]), (External 2 Returns, [ANum 80, ANum 24])]"
    unfolding s_def by code_simp
  have l: "listeners_of (EvApp TerminalResize) s \<noteq> []"
    unfolding s_def by code_simp
  note t = C1_emitTyped_calls_all_in_order [where n=0 and files=False and m=50 and lg=True
      and cs="[Subscribe TerminalResize 1 Returns, Subscribe TerminalResize 2 Returns]"
      and k=TerminalResize and args="[ANum 80, ANum 24]", folded s_def, OF h]
  show ?thesis unfolding s_def [symmetric] using h t e l by (simp del: invoke.simps)
qed

text \<open>
  C1 as stated fails when a registered listener throws: of two listeners registered for
  \<open>terminal:resize\<close>, the first one throwing, only the first is called, and the result
  is \<open>false\<close> although listeners were registered.
\<close>

theorem C1_counterexample:
  "listeners_of (EvApp TerminalResize)
     (busAfter (Suc (Suc 0)) False 50 True
       [Subscribe TerminalResize 1 (Throws ''boom''), Subscribe TerminalResize 2 Returns])
     = [On (External 1 (Throws ''boom'')), On (External 2 Returns)]
   \<and> invocations (trace (snd (emitTyped (invoke (Suc (Suc 0))) TerminalResize [ANum 80, ANum 24]
        (busAfter (Suc (Suc 0)) False 50 True
          [Subscribe TerminalResize 1 (Throws ''boom''), Subscribe TerminalResize 2 Returns]))))
       = [(External 1 (Throws ''boom''), [ANum 80, ANum 24])]
   \<and> fst (emitTyped (invoke (Suc (Suc 0))) TerminalResize [ANum 80, ANum 24]
        (busAfter (Suc (Suc 0)) False 50 True
          [Subscribe TerminalResize 1 (Throws ''boom''), Subscribe TerminalResize 2 Returns]))
       = False"
  by code_simp


text \<open>
  C10. The constructor registers the bus's own listeners for \<open>'error'\<close>,
  \<open>'newListener'\<close> and \<open>'removeListener'\<close>: on a new bus with no subscription from
  the application, \<open>getListenersInfo()\<close> is not empty and consists of exactly these three
  names with one listener each, none of them an application kind.
\<close>

theorem C10_new_bus_lists_bookkeeping_listeners:
  "fst (getListenersInfo (newEventBus (invoke (Suc n)) m lg (processStart env)))
     = [(EvError, 1), (EvNewListener, 1), (EvRemoveListener, 1)]"
  by (simp add: getListenersInfo_def eventNames_def listenerCount_def listeners_of_def
      newEventBus_events del: invoke.simps)






text \<open>
  C8. On every bus reached from a new one with limit \<open>m\<close>, \<open>onTyped k l\<close> appends \<open>l\<close> to
  the listeners of \<open>k\<close> and the count grows by one, whatever the count was, and it does
  not throw. What it leaves in the trace is the bookkeeping of \<open>'newListener'\<close> and,
  when the limit is positive, the count had reached it and the array has not warned yet,
  one warning: going over the limit adds the warning and changes nothing else. The
  limit of a bus built with the default arguments is 50.
\<close>

theorem C8_registration_beyond_the_limit_succeeds:
  fixes n m :: nat and files lg :: bool and cs :: "busCall list" and k :: appEvent and l :: listener
  defines "s \<equiv> busAfter (Suc (Suc n)) files m lg cs"
  defines "s' \<equiv> onTyped (invoke (Suc (Suc n))) k l s"
  shows "listeners_of (EvApp k) s' = listeners_of (EvApp k) s @ [On l]
       \<and> listenerCount (EvApp k) s' = listenerCount (EvApp k) s + 1
       \<and> flow s' = Normal
       \<and> maxListeners s = m
       \<and> trace s' = trace s
           @ (if lg then [BusLogEvent (LnEvent EvNewListener) 1] else [])
           @ [Invoke BusOnNewListener [AEvent (EvApp k), AListener l],
              BusLogListenerAdd (EvApp k) (listenerCount (EvApp k) s + 1)]
           @ (if 0 < m \<and> m \<le> listenerCount (EvApp k) s \<and> EvApp k \<notin> set (warned s)
              then [MaxListenersWarning (EvApp k) (listenerCount (EvApp k) s + 1)] else [])
       \<and> maxListeners (newEventBusOpt (invoke (Suc (Suc n))) None None (processStart env)) = 50"
proof -
  have inv: "bus_inv s" unfolding s_def by (rule bus_inv_busAfter)
  then have a: "listeners_of EvNewListener s = [On BusOnNewListener]" "flow s = Normal"
    by (simp_all add: bus_inv_def)
  have cfg: "maxListeners s = m" "emitWrapped s = lg"
    unfolding s_def using config_busAfter [of n files m lg cs] by simp_all
  have eq: "s' = addListener (invoke (Suc (Suc n))) (EvApp k) (On l) s"
    by (simp add: s'_def onTyped_def on_def del: invoke.simps)
  show ?thesis unfolding eq
    using addListener_char [OF a, where n="Suc n" and ev="EvApp k" and r="On l"]
      addListener_trace [OF a, where n="Suc n" and ev="EvApp k" and r="On l"]
    by (simp add: cfg listenerCount_def newEventBusOpt_def newEventBus_events del: invoke.simps)
qed

text \<open>
  An instance: with limit 2, the third listener of \<open>app:error\<close> is registered and counted
  and the warning is printed; the fourth is registered with no further warning.
\<close>

lemma C8_example:
  "listenerCount (EvApp AppError)
     (busAfter (Suc (Suc 0)) False 2 False
        [Subscribe AppError 1 Returns, Subscribe AppError 2 Returns, Subscribe AppError 3 Returns]) = 3
   \<and> last (trace (busAfter (Suc (Suc 0)) False 2 False
        [Subscribe AppError 1 Returns, Subscribe AppError 2 Returns, Subscribe AppError 3 Returns]))
       = MaxListenersWarning (EvApp AppError) 3
   \<and> listenerCount (EvApp AppError)
     (busAfter (Suc (Suc 0)) False 2 False
        [Subscribe AppError 1 Returns, Subscribe AppError 2 Returns, Subscribe AppError 3 Returns,
         Subscribe AppError 4 Returns]) = 4
   \<and> last (trace (busAfter (Suc (Suc 0)) False 2 False
        [Subscribe AppError 1 Returns, Subscribe AppError 2 Returns, Subscribe AppError 3 Returns,
         Subscribe AppError 4 Returns]))
       = BusLogListenerAdd (EvApp AppError) 4"
  by code_simp


lemma filter_isOn_none:
  "On f \<notin> set rs \<Longrightarrow> filter (\<lambda>r. isOn r \<and> listener_of r = f) rs = []"
  by (induction rs rule: wids.induct) auto

lemma publish_calls:
  fixes s :: world and k :: appEvent and n :: nat and args :: "arg list" and f :: listener
  assumes inv: "bus_inv s" and noOn: "On f \<notin> set (listeners_of (EvApp k) s)"
  defines "s' \<equiv> caught (publish (invoke (Suc (Suc n))) k args) s"
  shows "\<exists>X. callsOf f (trace s') = callsOf f (trace s) @ X
            \<and> length X + length (filter (\<lambda>r. listener_of r = f) (listeners_of (EvApp k) s'))
                = length (filter (\<lambda>r. listener_of r = f) (listeners_of (EvApp k) s))"
    and "On f \<notin> set (listeners_of (EvApp k) s')"
    and "bus_inv s'"
proof -
  define rs where "rs = listeners_of (EvApp k) s"
  have eq: "s' = (snd (emitTyped (invoke (Suc (Suc n))) k args s))\<lparr>flow := Normal\<rparr>"
    unfolding s'_def caught_publish [OF inv] by (simp only: publish_def)
  have L: "listeners_of (EvApp k) s' = survivors rs"
    unfolding eq rs_def by (simp add: emitTyped_char(2) [OF inv] del: invoke.simps)
  have T: "invocations (trace s') =
      invocations (trace s) @ map (\<lambda>r. (listener_of r, args)) (delivered rs)"
    unfolding eq rs_def by (simp add: emitTyped_char(4) [OF inv] del: invoke.simps)
  have sub: "set (delivered rs) \<subseteq> set rs"
    using delivered_undelivered [of rs] by (metis Un_upper1 set_append)
  then have n1: "On f \<notin> set (delivered rs)" using noOn rs_def by blast
  have split: "filter (\<lambda>r. listener_of r = f) rs =
      filter (\<lambda>r. listener_of r = f) (delivered rs) @ filter (\<lambda>r. listener_of r = f) (undelivered rs)"
    by (metis delivered_undelivered filter_append)
  define X where "X = map (\<lambda>r. (listener_of r, args)) (filter (\<lambda>r. listener_of r = f) (delivered rs))"
  have c: "callsOf f (trace s') = callsOf f (trace s) @ X"
    by (simp add: callsOf_def T X_def filter_map comp_def)
  have l: "length X + length (filter (\<lambda>r. listener_of r = f) (listeners_of (EvApp k) s'))
      = length (filter (\<lambda>r. listener_of r = f) (listeners_of (EvApp k) s))"
    unfolding L rs_def [symmetric] split
    by (simp add: X_def survivors_def filter_isOn_none [OF n1])
  show "\<exists>X. callsOf f (trace s') = callsOf f (trace s) @ X
            \<and> length X + length (filter (\<lambda>r. listener_of r = f) (listeners_of (EvApp k) s'))
                = length (filter (\<lambda>r. listener_of r = f) (listeners_of (EvApp k) s))"
    using c l by blast
  show "On f \<notin> set (listeners_of (EvApp k) s')"
    using noOn set_survivors [of rs] unfolding L rs_def by blast
  show "bus_inv s'" unfolding s'_def by (rule bus_inv_publish [OF inv])
qed

lemma publishAll_snoc:
  "publishAll n k (argss @ [args]) s =
     caught (publish (invoke n) k args) (publishAll n k argss s)"
  by (simp add: publishAll_def)

lemma publishAll_calls:
  assumes inv: "bus_inv s" and noOn: "On f \<notin> set (listeners_of (EvApp k) s)"
  shows "(\<exists>X. callsOf f (trace (publishAll (Suc (Suc n)) k argss s)) = callsOf f (trace s) @ X
            \<and> length X + length (filter (\<lambda>r. listener_of r = f)
                  (listeners_of (EvApp k) (publishAll (Suc (Suc n)) k argss s)))
                = length (filter (\<lambda>r. listener_of r = f) (listeners_of (EvApp k) s)))
       \<and> On f \<notin> set (listeners_of (EvApp k) (publishAll (Suc (Suc n)) k argss s))
       \<and> bus_inv (publishAll (Suc (Suc n)) k argss s)"
proof (induction argss rule: rev_induct)
  case Nil
  show ?case using assms by (simp add: publishAll_def)
next
  case (snoc args argss)
  define t where "t = publishAll (Suc (Suc n)) k argss s"
  from snoc [folded t_def] obtain X where
    X: "callsOf f (trace t) = callsOf f (trace s) @ X"
      "length X + length (filter (\<lambda>r. listener_of r = f) (listeners_of (EvApp k) t))
        = length (filter (\<lambda>r. listener_of r = f) (listeners_of (EvApp k) s))"
    and t: "On f \<notin> set (listeners_of (EvApp k) t)" "bus_inv t"
    by blast
  from publish_calls [OF t(2) t(1), of n args] obtain Y where
    Y: "callsOf f (trace (caught (publish (invoke (Suc (Suc n))) k args) t)) = callsOf f (trace t) @ Y"
      "length Y + length (filter (\<lambda>r. listener_of r = f)
          (listeners_of (EvApp k) (caught (publish (invoke (Suc (Suc n))) k args) t)))
        = length (filter (\<lambda>r. listener_of r = f) (listeners_of (EvApp k) t))"
    and t': "On f \<notin> set (listeners_of (EvApp k) (caught (publish (invoke (Suc (Suc n))) k args) t))"
      "bus_inv (caught (publish (invoke (Suc (Suc n))) k args) t)"
    by blast
  have "callsOf f (trace (caught (publish (invoke (Suc (Suc n))) k args) t)) = callsOf f (trace s) @ (X @ Y)
      \<and> length (X @ Y) + length (filter (\<lambda>r. listener_of r = f)
          (listeners_of (EvApp k) (caught (publish (invoke (Suc (Suc n))) k args) t)))
        = length (filter (\<lambda>r. listener_of r = f) (listeners_of (EvApp k) s))"
    using X Y by simp
  then show ?case unfolding publishAll_snoc t_def [symmetric] using t' by blast
qed


lemma count_removeLast:
  "list_ex P rs \<Longrightarrow> Suc (length (filter P (removeLast P rs))) = length (filter P rs)"
proof -
  assume "list_ex P rs"
  from removeLast_split [OF this] obtain xs r ys
    where "rs = xs @ r # ys" "P r" "removeLast P rs = xs @ ys" by blast
  then show ?thesis by simp
qed

text \<open>
  C7. On every bus \<open>s\<close> reached from a new one by calls of the typed methods, for every
  kind \<open>k\<close> and listener \<open>f\<close>:
  \<^item> \<open>offTyped k f\<close> removes the last registration of \<open>f\<close> for \<open>k\<close> (the most recent one)
    and keeps the others in their order;
  \<^item> when \<open>f\<close> has no registration for \<open>k\<close>, \<open>offTyped k f\<close> changes nothing at all;
  \<^item> when \<open>f\<close> had one registration for \<open>k\<close>, after \<open>offTyped k f\<close> no number of
    publishes of \<open>k\<close> adds a call of \<open>f\<close>;
  \<^item> when \<open>f\<close> had no registration for \<open>k\<close>, after \<open>onceTyped k f\<close> any number of
    publishes of \<open>k\<close> adds at most one call of \<open>f\<close>.
\<close>

theorem C7_unsubscribe_and_once:
  fixes n m i :: nat and files lg :: bool and cs :: "busCall list" and k :: appEvent and b :: behaviour
  defines "s \<equiv> busAfter (Suc (Suc n)) files m lg cs"
  defines "f \<equiv> External i b"
  shows "(\<forall>xs x ys. listeners_of (EvApp k) s = xs @ x # ys \<and> listener_of x = f
            \<and> list_all (\<lambda>y. listener_of y \<noteq> f) ys \<longrightarrow>
          listeners_of (EvApp k) (offTyped (invoke (Suc (Suc n))) k f s) = xs @ ys)
       \<and> (list_all (\<lambda>y. listener_of y \<noteq> f) (listeners_of (EvApp k) s) \<longrightarrow>
          offTyped (invoke (Suc (Suc n))) k f s = s)
       \<and> (length (filter (\<lambda>y. listener_of y = f) (listeners_of (EvApp k) s)) = 1 \<longrightarrow>
          (\<forall>argss. callsOf f (trace (publishAll (Suc (Suc n)) k argss
                      (offTyped (invoke (Suc (Suc n))) k f s))) = callsOf f (trace s)))
       \<and> (list_all (\<lambda>y. listener_of y \<noteq> f) (listeners_of (EvApp k) s) \<longrightarrow>
          (\<forall>argss. length (callsOf f (trace (publishAll (Suc (Suc n)) k argss
                      (onceTyped (invoke (Suc (Suc n))) k f s))))
                    \<le> length (callsOf f (trace s)) + 1))"
proof (intro conjI allI impI)
  have inv: "bus_inv s" unfolding s_def by (rule bus_inv_busAfter)
  define P where "P = (\<lambda>r. listener_of r = f)"
  note off = offTyped_char [OF inv, where k=k and l=f and n="Suc n", folded P_def]
  { fix xs x ys
    assume a: "listeners_of (EvApp k) s = xs @ x # ys \<and> listener_of x = f
        \<and> list_all (\<lambda>y. listener_of y \<noteq> f) ys"
    then have "P x" "\<not> list_ex P ys" by (auto simp: P_def list_all_iff list_ex_iff)
    then have "removeLast P (xs @ x # ys) = xs @ ys" by (rule removeLast_append)
    then show "listeners_of (EvApp k) (offTyped (invoke (Suc (Suc n))) k f s) = xs @ ys"
      using a by (simp add: off(1) del: invoke.simps) }
  { assume "list_all (\<lambda>y. listener_of y \<noteq> f) (listeners_of (EvApp k) s)"
    then have "\<not> list_ex (matches (ByListener f)) (listeners_of (EvApp k) s)"
      by (auto simp: matches_ByListener list_all_iff list_ex_iff)
    then show "offTyped (invoke (Suc (Suc n))) k f s = s"
      by (simp add: offTyped_def off_def removeListener_absent del: invoke.simps) }
  { fix argss
    assume one: "length (filter (\<lambda>y. listener_of y = f) (listeners_of (EvApp k) s)) = 1"
    define t where "t = offTyped (invoke (Suc (Suc n))) k f s"
    have ex: "list_ex P (listeners_of (EvApp k) s)"
      using one unfolding P_def list_ex_iff
      by (metis (mono_tags, lifting) filter_False length_0_conv zero_neq_one)
    have zero: "filter P (listeners_of (EvApp k) t) = []"
      using count_removeLast [OF ex] one by (simp add: t_def off(1) P_def del: invoke.simps)
    then have noOn: "On f \<notin> set (listeners_of (EvApp k) t)"
      by (auto simp: filter_empty_conv P_def)
    have invt: "bus_inv t" unfolding t_def by (rule bus_inv_offTyped [OF inv])
    have tr: "callsOf f (trace t) = callsOf f (trace s)"
      by (simp add: callsOf_def t_def off(5) del: invoke.simps)
    from publishAll_calls [OF invt noOn, of n argss] zero
    have "callsOf f (trace (publishAll (Suc (Suc n)) k argss t)) = callsOf f (trace t)"
      by (auto simp: P_def)
    then show "callsOf f (trace (publishAll (Suc (Suc n)) k argss
        (offTyped (invoke (Suc (Suc n))) k f s))) = callsOf f (trace s)"
      using tr unfolding t_def by (simp del: invoke.simps) }
  { fix argss
    assume none: "list_all (\<lambda>y. listener_of y \<noteq> f) (listeners_of (EvApp k) s)"
    define t where "t = onceTyped (invoke (Suc (Suc n))) k f s"
    define sN where "sN = s\<lparr>nextWrapper := Suc (nextWrapper s)\<rparr>"
    have a: "listeners_of EvNewListener sN = [On BusOnNewListener]" "flow sN = Normal"
      using inv by (simp_all add: bus_inv_def sN_def)
    have c: "t = addListener (invoke (Suc (Suc n))) (EvApp k) (Once (nextWrapper s) f) sN"
      by (simp add: t_def onceTyped_def once_def sN_def del: invoke.simps)
    have b: "\<And>ev. listeners_of ev sN = listeners_of ev s" "trace sN = trace s"
      by (simp_all add: sN_def)
    have L: "listeners_of (EvApp k) t = listeners_of (EvApp k) s @ [Once (nextWrapper s) f]"
      unfolding c by (simp add: addListener_char [OF a] b del: invoke.simps)
    have cnt: "length (filter (\<lambda>r. listener_of r = f) (listeners_of (EvApp k) t)) = 1"
      using none by (simp add: L list_all_iff filter_empty_conv [THEN iffD2])
    have noOn: "On f \<notin> set (listeners_of (EvApp k) t)"
      using none by (auto simp: L list_all_iff)
    have invt: "bus_inv t" unfolding t_def f_def by (rule bus_inv_onceTyped [OF inv]) simp
    have tr: "callsOf f (trace t) = callsOf f (trace s)"
      unfolding c by (simp add: callsOf_def addListener_char [OF a] b del: invoke.simps)
    from publishAll_calls [OF invt noOn, of n argss] cnt obtain X where
      "callsOf f (trace (publishAll (Suc (Suc n)) k argss t)) = callsOf f (trace t) @ X"
      "length X \<le> 1"
      by auto
    then show "length (callsOf f (trace (publishAll (Suc (Suc n)) k argss
        (onceTyped (invoke (Suc (Suc n))) k f s)))) \<le> length (callsOf f (trace s)) + 1"
      using tr unfolding t_def by (simp del: invoke.simps) }
qed


theorem C7_witness:
  "listeners_of (EvApp TerminalKey)
      (busAfter (Suc (Suc 0)) False 50 False
        [Subscribe TerminalKey 1 Returns, Subscribe TerminalKey 2 Returns, Subscribe TerminalKey 3 Returns])
     = [On (External 1 Returns)] @ On (External 2 Returns) # [On (External 3 Returns)]
   \<and> listener_of (On (External 2 Returns)) = External 2 Returns
   \<and> list_all (\<lambda>y. listener_of y \<noteq> External 2 Returns) [On (External 3 Returns)]
   \<and> listeners_of (EvApp TerminalKey)
        (offTyped (invoke (Suc (Suc 0))) TerminalKey (External 2 Returns)
          (busAfter (Suc (Suc 0)) False 50 False
            [Subscribe TerminalKey 1 Returns, Subscribe TerminalKey 2 Returns, Subscribe TerminalKey 3 Returns]))
       = [On (External 1 Returns)] @ [On (External 3 Returns)]
   \<and> length (filter (\<lambda>y. listener_of y = External 2 Returns)
        (listeners_of (EvApp TerminalKey)
          (busAfter (Suc (Suc 0)) False 50 False
            [Subscribe TerminalKey 1 Returns, Subscribe TerminalKey 2 Returns, Subscribe TerminalKey 3 Returns]))) = 1
   \<and> (\<forall>argss. callsOf (External 2 Returns) (trace (publishAll (Suc (Suc 0)) TerminalKey argss
          (offTyped (invoke (Suc (Suc 0))) TerminalKey (External 2 Returns)
            (busAfter (Suc (Suc 0)) False 50 False
              [Subscribe TerminalKey 1 Returns, Subscribe TerminalKey 2 Returns, Subscribe TerminalKey 3 Returns]))))
        = [])
   \<and> list_all (\<lambda>y. listener_of y \<noteq> External 9 Returns)
        (listeners_of (EvApp TerminalKey)
          (busAfter (Suc (Suc 0)) False 50 False
            [Subscribe TerminalKey 1 Returns, Subscribe TerminalKey 2 Returns, Subscribe TerminalKey 3 Returns]))
   \<and> offTyped (invoke (Suc (Suc 0))) TerminalKey (External 9 Returns)
        (busAfter (Suc (Suc 0)) False 50 False
          [Subscribe TerminalKey 1 Returns, Subscribe TerminalKey 2 Returns, Subscribe TerminalKey 3 Returns])
       = busAfter (Suc (Suc 0)) False 50 False
          [Subscribe TerminalKey 1 Returns, Subscribe TerminalKey 2 Returns, Subscribe TerminalKey 3 Returns]
   \<and> (\<forall>argss. length (callsOf (External 9 Returns) (trace (publishAll (Suc (Suc 0)) TerminalKey argss
          (onceTyped (invoke (Suc (Suc 0))) TerminalKey (External 9 Returns)
            (busAfter (Suc (Suc 0)) False 50 False
              [Subscribe TerminalKey 1 Returns, Subscribe TerminalKey 2 Returns, Subscribe TerminalKey 3 Returns])))))
        \<le> 1)"
proof -
  define s where "s = busAfter (Suc (Suc 0)) False 50 False
      [Subscribe TerminalKey 1 Returns, Subscribe TerminalKey 2 Returns, Subscribe TerminalKey 3 Returns]"
  have h1: "listeners_of (EvApp TerminalKey) s
      = [On (External 1 Returns)] @ On (External 2 Returns) # [On (External 3 Returns)]"
    unfolding s_def by code_simp
  have h2: "listener_of (On (External 2 Returns)) = External 2 Returns" by simp
  have h3: "list_all (\<lambda>y. listener_of y \<noteq> External 2 Returns) [On (External 3 Returns)]" by simp
  have h4: "length (filter (\<lambda>y. listener_of y = External 2 Returns)
      (listeners_of (EvApp TerminalKey) s)) = 1"
    unfolding s_def by code_simp
  have h5: "list_all (\<lambda>y. listener_of y \<noteq> External 9 Returns) (listeners_of (EvApp TerminalKey) s)"
    unfolding s_def by code_simp
  have e2: "callsOf (External 2 Returns) (trace s) = []" unfolding s_def by code_simp
  have e9: "length (callsOf (External 9 Returns) (trace s)) + 1 = 1" unfolding s_def by code_simp
  note t2 = C7_unsubscribe_and_once [where n=0 and files=False and m=50 and lg=False and k=TerminalKey
      and i=2 and b=Returns
      and cs="[Subscribe TerminalKey 1 Returns, Subscribe TerminalKey 2 Returns, Subscribe TerminalKey 3 Returns]",
      folded s_def]
  note t9 = C7_unsubscribe_and_once [where n=0 and files=False and m=50 and lg=False and k=TerminalKey
      and i=9 and b=Returns
      and cs="[Subscribe TerminalKey 1 Returns, Subscribe TerminalKey 2 Returns, Subscribe TerminalKey 3 Returns]",
      folded s_def]
  have a: "listeners_of (EvApp TerminalKey)
        (offTyped (invoke (Suc (Suc 0))) TerminalKey (External 2 Returns) s)
       = [On (External 1 Returns)] @ [On (External 3 Returns)]"
    using t2 h1 h2 h3 by blast
  have c: "\<forall>argss. callsOf (External 2 Returns) (trace (publishAll (Suc (Suc 0)) TerminalKey argss
          (offTyped (invoke (Suc (Suc 0))) TerminalKey (External 2 Returns) s))) = []"
    using t2 h4 e2 by metis
  have b: "offTyped (invoke (Suc (Suc 0))) TerminalKey (External 9 Returns) s = s"
    using t9 h5 by blast
  have d: "\<forall>argss. length (callsOf (External 9 Returns) (trace (publishAll (Suc (Suc 0)) TerminalKey argss
          (onceTyped (invoke (Suc (Suc 0))) TerminalKey (External 9 Returns) s)))) \<le> 1"
    using t9 h5 e9 by metis
  show ?thesis unfolding s_def [symmetric] using h1 h2 h3 h4 h5 a b c d by blast
qed

lemma milestones_simps [simp]:
  "milestones [] = []"
  "milestones (a # as) = (if isMilestone a then a # milestones as else milestones as)"
  "milestones (xs @ ys) = milestones xs @ milestones ys"
  by (simp_all add: milestones_def)

lemma faultMarks_simps [simp]:
  "faultMarks [] = []"
  "faultMarks (a # as) = (if isFaultMark a then a # faultMarks as else faultMarks as)"
  "faultMarks (xs @ ys) = faultMarks xs @ faultMarks ys"
  by (simp_all add: faultMarks_def)

lemma removalNoise_silent:
  "list_all removalNoise T \<Longrightarrow> milestones T = [] \<and> faultMarks T = []"
proof (induction T)
  case Nil
  then show ?case by simp
next
  case (Cons a T)
  then show ?case by (cases a rule: removalNoise.cases) auto
qed

lemma busStep_refl: "busStep s [] s"
proof -
  have "s = s\<lparr>events := events s, warned := warned s, trace := trace s @ []\<rparr>" by simp
  then show ?thesis unfolding busStep_def by blast
qed

lemma busStep_trans:
  assumes "busStep s T1 s1" "busStep s1 T2 s2"
  shows "busStep s (T1 @ T2) s2"
proof -
  from assms(1) obtain E1 W1 where a: "s1 = s\<lparr>events := E1, warned := W1, trace := trace s @ T1\<rparr>"
    unfolding busStep_def by blast
  from assms(2) obtain E2 W2 where b: "s2 = s1\<lparr>events := E2, warned := W2, trace := trace s1 @ T2\<rparr>"
    unfolding busStep_def by blast
  have "s2 = s\<lparr>events := E2, warned := W2, trace := trace s @ (T1 @ T2)\<rparr>"
    unfolding b a by simp
  then show ?thesis unfolding busStep_def by blast
qed

lemma busStep_flow: "busStep s T s' \<Longrightarrow> flow s' = flow s"
  unfolding busStep_def by auto

lemma busStep_effect: "busStep s [a] (effect a s)"
proof -
  have "effect a s = s\<lparr>events := events s, warned := warned s, trace := trace s @ [a]\<rparr>"
    by (simp add: effect_def)
  then show ?thesis unfolding busStep_def by blast
qed

lemma busStep_emitWrapped: "busStep s T s' \<Longrightarrow> emitWrapped s' = emitWrapped s"
  unfolding busStep_def by auto


lemma matches_target_of [simp]: "matches (target_of x) x"
  by (cases x) simp_all

lemma busStep_setListeners:
  "busStep s T ((setListeners ev rs s)\<lparr>trace := trace s @ T\<rparr>)"
proof -
  have "(setListeners ev rs s)\<lparr>trace := trace s @ T\<rparr> =
      s\<lparr>events := events (setListeners ev rs s), warned := warned (setListeners ev rs s),
        trace := trace s @ T\<rparr>"
    by (simp add: setListeners_def)
  then show ?thesis unfolding busStep_def by blast
qed

lemma removeListener_step:
  assumes rl: "listeners_of EvRemoveListener s = [On BusOnRemoveListener]"
      and ne: "ev \<noteq> EvRemoveListener"
      and xs: "listeners_of ev s = xs @ [x]"
  shows "\<exists>T. busStep s T (removeListener (invoke (Suc n)) ev (target_of x) s) \<and> list_all removalNoise T
           \<and> (\<forall>ev'. listeners_of ev' (removeListener (invoke (Suc n)) ev (target_of x) s) =
                 (if ev' = ev then xs else listeners_of ev' s))"
proof -
  have ex: "list_ex (matches (target_of x)) (listeners_of ev s)" by (simp add: xs)
  have r: "removeLast (matches (target_of x)) (listeners_of ev s) = xs"
    using removeLast_append [of "matches (target_of x)" x "[]" xs] by (simp add: xs)
  define T where "T = (if emitWrapped s then [BusLogEvent (LnEvent EvRemoveListener) 1] else [])
      @ [Invoke BusOnRemoveListener [AEvent ev, AListener (target_listener (target_of x))],
         BusLogListenerRemove ev (int (length xs) - 1)]"
  have eq: "removeListener (invoke (Suc n)) ev (target_of x) s =
      (setListeners ev xs s)\<lparr>trace := trace s @ T\<rparr>"
    using removeListener_char [OF rl ne ex, of n] by (simp add: r T_def)
  have m: "list_all removalNoise T" by (simp add: T_def)
  show ?thesis unfolding eq using busStep_setListeners [of s T ev xs] m
    by (auto simp: listeners_of_setListeners)
qed

lemma removeEach:
  assumes "listeners_of EvRemoveListener s = [On BusOnRemoveListener]"
      and "ev \<noteq> EvRemoveListener" and "flow s = Normal" and "listeners_of ev s = xs"
  shows "\<exists>T. busStep s T (seq (map (\<lambda>r. removeListener (invoke (Suc n)) ev (target_of r)) (rev xs)) s)
           \<and> list_all removalNoise T
           \<and> (\<forall>ev'. listeners_of ev'
                 (seq (map (\<lambda>r. removeListener (invoke (Suc n)) ev (target_of r)) (rev xs)) s) =
                 (if ev' = ev then [] else listeners_of ev' s))"
  using assms
proof (induction xs arbitrary: s rule: rev_induct)
  case Nil
  then show ?case using busStep_refl [of s] by auto
next
  case (snoc x xs)
  define s1 where "s1 = removeListener (invoke (Suc n)) ev (target_of x) s"
  from removeListener_step [OF snoc.prems(1,2,4), of n, folded s1_def] obtain T1 where
    b1: "busStep s T1 s1" and m1: "list_all removalNoise T1"
    and l1: "\<And>ev'. listeners_of ev' s1 = (if ev' = ev then xs else listeners_of ev' s)"
    by blast
  have f1: "flow s1 = Normal" using busStep_flow [OF b1] snoc.prems(3) by simp
  have r1: "listeners_of EvRemoveListener s1 = [On BusOnRemoveListener]"
    using snoc.prems(1,2) by (simp add: l1)
  have x1: "listeners_of ev s1 = xs" by (simp add: l1)
  from snoc.IH [OF r1 snoc.prems(2) f1 x1] obtain T2 where
    b2: "busStep s1 T2 (seq (map (\<lambda>r. removeListener (invoke (Suc n)) ev (target_of r)) (rev xs)) s1)"
    and m2: "list_all removalNoise T2"
    and l2: "\<And>ev'. listeners_of ev'
        (seq (map (\<lambda>r. removeListener (invoke (Suc n)) ev (target_of r)) (rev xs)) s1) =
        (if ev' = ev then [] else listeners_of ev' s1)"
    by blast
  have eq: "seq (map (\<lambda>r. removeListener (invoke (Suc n)) ev (target_of r)) (rev (xs @ [x]))) s =
      seq (map (\<lambda>r. removeListener (invoke (Suc n)) ev (target_of r)) (rev xs)) s1"
    using f1 by (simp add: s1_def Let_def del: invoke.simps)
  show ?case unfolding eq using busStep_trans [OF b1 b2] m1 m2 l1 l2
    by (intro exI [of _ "T1 @ T2"]) simp
qed

lemma removeAllListenersOf_char:
  assumes "listeners_of EvRemoveListener s = [On BusOnRemoveListener]"
      and "ev \<noteq> EvRemoveListener" and "flow s = Normal"
  shows "\<exists>T. busStep s T (removeAllListenersOf (invoke (Suc n)) ev s) \<and> list_all removalNoise T
           \<and> (\<forall>ev'. listeners_of ev' (removeAllListenersOf (invoke (Suc n)) ev s) =
                 (if ev' = ev then [] else listeners_of ev' s))"
proof -
  have "removeAllListenersOf (invoke (Suc n)) ev s =
      seq (map (\<lambda>r. removeListener (invoke (Suc n)) ev (target_of r)) (rev (listeners_of ev s))) s"
    using assms(1) by (simp add: removeAllListenersOf_def del: invoke.simps)
  then show ?thesis using removeEach [OF assms refl, of n] by simp
qed


lemma seq_append:
  "flow s = Normal \<Longrightarrow> seq (fs @ gs) s =
     (if flow (seq fs s) = Normal then seq gs (seq fs s) else seq fs s)"
proof (induction fs arbitrary: s)
  case Nil
  then show ?case by simp
next
  case (Cons f fs)
  then show ?case by (simp add: Let_def)
qed

lemma removeAllNames:
  assumes "listeners_of EvRemoveListener s = [On BusOnRemoveListener]"
      and "flow s = Normal" and "EvRemoveListener \<notin> set names"
  shows "\<exists>T. busStep s T (seq (map (removeAllListenersOf (invoke (Suc n))) names) s)
           \<and> list_all removalNoise T
           \<and> listeners_of EvRemoveListener (seq (map (removeAllListenersOf (invoke (Suc n))) names) s)
               = [On BusOnRemoveListener]"
  using assms
proof (induction names arbitrary: s)
  case Nil
  then show ?case using busStep_refl [of s] by auto
next
  case (Cons ev names)
  define s1 where "s1 = removeAllListenersOf (invoke (Suc n)) ev s"
  have ne: "ev \<noteq> EvRemoveListener" using Cons.prems(3) by auto
  from removeAllListenersOf_char [OF Cons.prems(1) ne Cons.prems(2), of n, folded s1_def]
  obtain T1 where b1: "busStep s T1 s1" and m1: "list_all removalNoise T1"
    and l1: "\<And>ev'. listeners_of ev' s1 = (if ev' = ev then [] else listeners_of ev' s)"
    by blast
  have f1: "flow s1 = Normal" using busStep_flow [OF b1] Cons.prems(2) by simp
  have r1: "listeners_of EvRemoveListener s1 = [On BusOnRemoveListener]"
    using Cons.prems(1) ne by (simp add: l1)
  have n1: "EvRemoveListener \<notin> set names" using Cons.prems(3) by simp
  from Cons.IH [OF r1 f1 n1] obtain T2 where
    b2: "busStep s1 T2 (seq (map (removeAllListenersOf (invoke (Suc n))) names) s1)"
    and m2: "list_all removalNoise T2"
    and l2: "listeners_of EvRemoveListener (seq (map (removeAllListenersOf (invoke (Suc n))) names) s1)
        = [On BusOnRemoveListener]"
    by blast
  have eq: "seq (map (removeAllListenersOf (invoke (Suc n))) (ev # names)) s =
      seq (map (removeAllListenersOf (invoke (Suc n))) names) s1"
    using f1 by (simp add: s1_def Let_def del: invoke.simps)
  show ?case unfolding eq using busStep_trans [OF b1 b2] m1 m2 l2
    by (intro exI [of _ "T1 @ T2"]) simp
qed

text \<open>
  \<open>cleanup()\<close> on a bus that still has its \<open>'removeListener'\<close> listener: every
  registration goes, and nothing but the bus and the trace changes.
\<close>

lemma cleanup_char:
  assumes rl: "listeners_of EvRemoveListener s = [On BusOnRemoveListener]" and fl: "flow s = Normal"
  shows "\<exists>T. cleanup (invoke (Suc n)) s =
             s\<lparr>events := [], warned := [],
               trace := trace s @ [BusLogEvent LnCleanup 0, RemoveAllListeners] @ T\<rparr>
           \<and> list_all removalNoise T"
proof -
  define s0 where "s0 = effect RemoveAllListeners (effect (BusLogEvent LnCleanup 0) s)"
  define names where "names = filter (\<lambda>ev. ev \<noteq> EvRemoveListener) (eventNames s0)"
  define s1 where "s1 = seq (map (removeAllListenersOf (invoke (Suc n))) names) s0"
  have b0: "busStep s [BusLogEvent LnCleanup 0, RemoveAllListeners] s0"
    using busStep_trans [OF busStep_effect busStep_effect] unfolding s0_def by fastforce
  have r0: "listeners_of EvRemoveListener s0 = [On BusOnRemoveListener]" and f0: "flow s0 = Normal"
    using rl fl by (simp_all add: s0_def)
  have nn: "EvRemoveListener \<notin> set names" by (simp add: names_def)
  from removeAllNames [OF r0 f0 nn, of n, folded s1_def] obtain T1 where
    b1: "busStep s0 T1 s1" and m1: "list_all removalNoise T1"
    and r1: "listeners_of EvRemoveListener s1 = [On BusOnRemoveListener]"
    by blast
  have f1: "flow s1 = Normal" using busStep_flow [OF b1] f0 by simp
  define s2 where "s2 = setListeners EvRemoveListener [] s1"
  have rm: "removeAllListenersOf (invoke (Suc n)) EvRemoveListener s1 = s2"
    using r1 f1
    by (simp add: removeAllListenersOf_def removeListener_def Let_def listeners_of_setListeners
        s2_def del: invoke.simps)
  have f2: "flow s2 = Normal" using f1 by (simp add: s2_def)
  have "s2 = (setListeners EvRemoveListener [] s1)\<lparr>trace := trace s1 @ []\<rparr>"
    by (simp add: s2_def setListeners_def)
  then have b2: "busStep s1 [] s2"
    using busStep_setListeners [of s1 "[]" EvRemoveListener "[]"] by simp
  have b: "busStep s ([BusLogEvent LnCleanup 0, RemoveAllListeners] @ T1 @ []) s2"
    using busStep_trans [OF b0 busStep_trans [OF b1 b2]] by simp
  then obtain E W where e: "s2 = s\<lparr>events := E, warned := W,
      trace := trace s @ [BusLogEvent LnCleanup 0, RemoveAllListeners] @ T1 @ []\<rparr>"
    unfolding busStep_def by blast
  have all: "removeAllListeners (invoke (Suc n)) (effect (BusLogEvent LnCleanup 0) s) =
      s2\<lparr>events := [], warned := []\<rparr>"
    unfolding removeAllListeners_def
    using r0 f0 f1 f2
    by (simp add: Let_def s0_def [symmetric] names_def [symmetric] seq_append s1_def [symmetric]
        rm del: invoke.simps)
  have "cleanup (invoke (Suc n)) s = s2\<lparr>events := [], warned := []\<rparr>"
    using fl by (simp add: cleanup_def Let_def all del: invoke.simps)
  then have "cleanup (invoke (Suc n)) s = s\<lparr>events := [], warned := [],
      trace := trace s @ ([BusLogEvent LnCleanup 0, RemoveAllListeners] @ T1)\<rparr>"
    by (subst (asm) e) simp
  then show ?thesis using m1 by (intro exI [of _ T1]) simp
qed


lemmas tm_defs = showShutdownMessage_def stopKeyListener_def startKeyListener_def
  showWelcomeScreen_def showError_def showInfo_def showKeyPress_def tmGracefulShutdown_def
  timerCallback_def tmHandleAppStart_def tmHandleAppStop_def tmHandleExit_def

lemmas app_defs = handleAppStart_def handleAppStop_def handleAppError_def
  handleTerminalKey_def handleTerminalResize_def handleExit_def

lemmas emit_defs = publish_def emitTyped_def emit_def originalEmit_def listeners_of_def
  listenerCount_def effect_def

lemma publish_AppStop:
  assumes "events s = registrations0" "flow s = Normal"
  shows "\<exists>T. publish (invoke (Suc n)) AppStop [] s =
               s\<lparr>isRunning := False, isInputGrabbed := False, trace := T\<rparr>
           \<and> milestones T = milestones (trace s) @ Publish AppStop [] #
                 (if isInputGrabbed s then [TermGrabInput False] else [])
           \<and> faultMarks T = faultMarks (trace s)"
proof -
  have "publish (invoke (Suc n)) AppStop [] s =
           s\<lparr>isRunning := False, isInputGrabbed := False,
             trace := trace (publish (invoke (Suc n)) AppStop [] s)\<rparr>
      \<and> milestones (trace (publish (invoke (Suc n)) AppStop [] s)) =
           milestones (trace s) @ Publish AppStop [] #
             (if isInputGrabbed s then [TermGrabInput False] else [])
      \<and> faultMarks (trace (publish (invoke (Suc n)) AppStop [] s)) = faultMarks (trace s)"
    using assms
    by (cases "isInputGrabbed s"; cases "emitWrapped s")
      (simp_all add: registrations0_def emit_defs tm_defs app_defs Let_def)
  then show ?thesis by blast
qed

lemma tmGracefulShutdown_ready:
  assumes "flow s = Normal" "isInitialized s"
  shows "\<exists>T. tmGracefulShutdown s =
               s\<lparr>isInputGrabbed := False, timers := timers s @ [80], trace := T\<rparr>
           \<and> milestones T = milestones (trace s)
                 @ (if isInputGrabbed s then [TermGrabInput False] else []) @ [SetTimeout 80]
           \<and> faultMarks T = faultMarks (trace s)"
proof -
  have "tmGracefulShutdown s =
           s\<lparr>isInputGrabbed := False, timers := timers s @ [80],
             trace := trace (tmGracefulShutdown s)\<rparr>
      \<and> milestones (trace (tmGracefulShutdown s)) = milestones (trace s)
           @ (if isInputGrabbed s then [TermGrabInput False] else []) @ [SetTimeout 80]
      \<and> faultMarks (trace (tmGracefulShutdown s)) = faultMarks (trace s)"
    using assms
    by (cases "isInputGrabbed s") (simp_all add: effect_def tm_defs Let_def)
  then show ?thesis by blast
qed

text \<open>
  The shutdown sequence, entered with the guard open, on the bus as the constructors
  wired it.
\<close>

lemma gracefulShutdown_armed:
  assumes ev: "events s = registrations0" and fl: "flow s = Normal"
      and run: "isRunning s" and ini: "isInitialized s"
  shows "\<exists>T. gracefulShutdown (invoke (Suc n)) s =
               s\<lparr>events := [], warned := [], isRunning := False, isInputGrabbed := False,
                 timers := timers s @ [80], trace := T\<rparr>
           \<and> milestones T = milestones (trace s) @ Publish AppStop [] #
                 (if isInputGrabbed s then [TermGrabInput False] else [])
                 @ [SetTimeout 80, RemoveAllListeners]
           \<and> faultMarks T = faultMarks (trace s)"
proof -
  define s1 where "s1 = effect (Log Info AppShutdownBegins) (s\<lparr>isRunning := False\<rparr>)"
  have s1: "events s1 = registrations0" "flow s1 = Normal" "isInitialized s1"
    "isInputGrabbed s1 = isInputGrabbed s" "milestones (trace s1) = milestones (trace s)"
    "faultMarks (trace s1) = faultMarks (trace s)"
    using ev fl ini by (simp_all add: s1_def effect_def)
  define s2 where "s2 = publish (invoke (Suc n)) AppStop [] s1"
  from publish_AppStop [OF s1(1,2), of n, folded s2_def] obtain T2 where
    e2: "s2 = s1\<lparr>isRunning := False, isInputGrabbed := False, trace := T2\<rparr>"
    and m2: "milestones T2 = milestones (trace s1) @ Publish AppStop [] #
        (if isInputGrabbed s1 then [TermGrabInput False] else [])"
    and f2: "faultMarks T2 = faultMarks (trace s1)"
    by blast
  have s2: "flow s2 = Normal" "isInitialized s2" "\<not> isInputGrabbed s2" "trace s2 = T2"
    "events s2 = registrations0"
    using s1 by (simp_all add: e2)
  define s3 where "s3 = tmGracefulShutdown s2"
  from tmGracefulShutdown_ready [OF s2(1,2), folded s3_def] obtain T3 where
    e3: "s3 = s2\<lparr>isInputGrabbed := False, timers := timers s2 @ [80], trace := T3\<rparr>"
    and m3: "milestones T3 = milestones (trace s2)
        @ (if isInputGrabbed s2 then [TermGrabInput False] else []) @ [SetTimeout 80]"
    and f3: "faultMarks T3 = faultMarks (trace s2)"
    by blast
  have s3: "flow s3 = Normal" "trace s3 = T3"
    "listeners_of EvRemoveListener s3 = [On BusOnRemoveListener]"
    using s2 by (simp_all add: e3 listeners_of_def registrations0_def)
  define s4 where "s4 = cleanup (invoke (Suc n)) s3"
  from cleanup_char [OF s3(3,1), of n, folded s4_def] obtain T4 where
    e4: "s4 = s3\<lparr>events := [], warned := [],
        trace := trace s3 @ [BusLogEvent LnCleanup 0, RemoveAllListeners] @ T4\<rparr>"
    and n4: "list_all removalNoise T4"
    by blast
  have s4: "flow s4 = Normal" using s3 by (simp add: e4)
  have "gracefulShutdown (invoke (Suc n)) s =
      seq [\<lambda>s. s\<lparr>isRunning := False\<rparr>, effect (Log Info AppShutdownBegins),
           publish (invoke (Suc n)) AppStop [], tmGracefulShutdown, cleanup (invoke (Suc n)),
           effect (Log Info AppShutdownDone)] s"
    using run by (simp only: gracefulShutdown_def simp_thms if_False if_True)
  also have "\<dots> = seq [effect (Log Info AppShutdownBegins),
           publish (invoke (Suc n)) AppStop [], tmGracefulShutdown, cleanup (invoke (Suc n)),
           effect (Log Info AppShutdownDone)] (s\<lparr>isRunning := False\<rparr>)"
    by (rule seq_Cons_Normal) (simp add: fl)
  also have "\<dots> = seq [publish (invoke (Suc n)) AppStop [], tmGracefulShutdown,
           cleanup (invoke (Suc n)), effect (Log Info AppShutdownDone)] s1"
    unfolding s1_def by (rule seq_Cons_Normal) (simp add: fl)
  also have "\<dots> = seq [tmGracefulShutdown, cleanup (invoke (Suc n)),
           effect (Log Info AppShutdownDone)] s2"
    unfolding s2_def by (rule seq_Cons_Normal) (simp only: s2(1) [unfolded s2_def])
  also have "\<dots> = seq [cleanup (invoke (Suc n)), effect (Log Info AppShutdownDone)] s3"
    unfolding s3_def by (rule seq_Cons_Normal) (simp only: s3(1) [unfolded s3_def])
  also have "\<dots> = seq [effect (Log Info AppShutdownDone)] s4"
    unfolding s4_def by (rule seq_Cons_Normal) (simp only: s4 [unfolded s4_def])
  also have "\<dots> = effect (Log Info AppShutdownDone) s4"
    by (simp add: Let_def)
  finally have gs: "gracefulShutdown (invoke (Suc n)) s = effect (Log Info AppShutdownDone) s4" .
  define T where "T = T3 @ [BusLogEvent LnCleanup 0, RemoveAllListeners] @ T4 @ [Log Info AppShutdownDone]"
  have "gracefulShutdown (invoke (Suc n)) s =
      s\<lparr>events := [], warned := [], isRunning := False, isInputGrabbed := False,
        timers := timers s @ [80], trace := T\<rparr>"
    unfolding gs e4 e3 e2 s1_def T_def by (simp add: effect_def)
  moreover have "milestones T = milestones (trace s) @ Publish AppStop [] #
      (if isInputGrabbed s then [TermGrabInput False] else []) @ [SetTimeout 80, RemoveAllListeners]"
    using removalNoise_silent [OF n4] s2(3) by (simp add: T_def m3 s2(4) m2 s1)
  moreover have "faultMarks T = faultMarks (trace s)"
    using removalNoise_silent [OF n4] by (simp add: T_def f3 s2(4) f2 s1)
  ultimately show ?thesis by blast
qed


lemma addTrace_silent [simp]: "milestones (addTrace ev r s) = []" "faultMarks (addTrace ev r s) = []"
  by (simp_all add: addTrace_def)

lemma addListener_exact:
  assumes "listeners_of EvNewListener s = [On BusOnNewListener]" "flow s = Normal"
  shows "addListener (invoke (Suc n)) ev r s =
     s\<lparr>events := AList.update ev (listeners_of ev s @ [r]) (events s),
       warned := addWarned ev s, trace := trace s @ addTrace ev r s\<rparr>"
proof (cases "listeners_of ev s")
  case Nil
  then show ?thesis using assms
    by (auto simp: addListener_def emit_newListener Let_def listenerCount_def setListeners_def
        addTrace_def addWarned_def)
next
  case (Cons a as)
  then show ?thesis using assms
    by (auto simp: addListener_def emit_newListener Let_def listenerCount_def setListeners_def
        effect_def addTrace_def addWarned_def)
qed

lemma onTyped_exact:
  assumes "listeners_of EvNewListener s = [On BusOnNewListener]" "flow s = Normal"
  shows "onTyped (invoke (Suc n)) k l s =
     s\<lparr>events := AList.update (EvApp k) (listeners_of (EvApp k) s @ [On l]) (events s),
       warned := addWarned (EvApp k) s, trace := trace s @ addTrace (EvApp k) (On l) s\<rparr>"
  unfolding onTyped_def on_def by (rule addListener_exact [OF assms])


lemma newEventBus_exact:
  "\<exists>W T. newEventBus (invoke (Suc n)) m lg (processStart env) =
       (processStart env)\<lparr>events := [(EvError, [On BusOnError]), (EvNewListener, [On BusOnNewListener]),
                                  (EvRemoveListener, [On BusOnRemoveListener])],
         warned := W, maxListeners := m, enableLogging := lg, emitWrapped := lg, trace := T\<rparr>
     \<and> milestones T = [] \<and> faultMarks T = []"
proof -
  define s0 where "s0 = (processStart env)\<lparr>events := [], warned := [], maxListeners := m,
      enableLogging := lg, emitWrapped := False\<rparr>"
  define s1 where "s1 = on (invoke (Suc n)) EvError BusOnError s0"
  define s2 where "s2 = on (invoke (Suc n)) EvNewListener BusOnNewListener s1"
  define s3 where "s3 = on (invoke (Suc n)) EvRemoveListener BusOnRemoveListener s2"
  have e0: "events s0 = []" "flow s0 = Normal" "trace s0 = []"
    by (simp_all add: s0_def processStart_def)
  have s1: "s1 = setListeners EvError [On BusOnError] s0"
    unfolding s1_def on_def by (rule addListener_first) (simp_all add: listeners_of_def e0)
  have e1: "events s1 = [(EvError, [On BusOnError])]" "flow s1 = Normal"
    by (simp_all add: s1 e0 setListeners_def)
  have s2: "s2 = setListeners EvNewListener [On BusOnNewListener] s1"
    unfolding s2_def on_def by (rule addListener_first) (simp_all add: listeners_of_def e1)
  have e2: "events s2 = [(EvError, [On BusOnError]), (EvNewListener, [On BusOnNewListener])]"
    "flow s2 = Normal"
    by (simp_all add: s2 e1 setListeners_def)
  have l2: "listeners_of EvNewListener s2 = [On BusOnNewListener]"
    "listeners_of EvRemoveListener s2 = []"
    by (simp_all add: listeners_of_def e2)
  have s3: "s3 = s2\<lparr>events := AList.update EvRemoveListener [On BusOnRemoveListener] (events s2),
      warned := addWarned EvRemoveListener s2,
      trace := trace s2 @ addTrace EvRemoveListener (On BusOnRemoveListener) s2\<rparr>"
    unfolding s3_def on_def using addListener_exact [OF l2(1) e2(2), of n EvRemoveListener]
    by (simp add: l2 del: invoke.simps)
  have f3: "flow s3 = Normal" by (simp add: s3 e2)
  have b: "newEventBus (invoke (Suc n)) m lg (processStart env) =
      effect (BusLogEvent LnInitialized 0) (setupEventLogging s3)"
    unfolding newEventBus_def setupErrorHandling_def
    by (simp add: Let_def s0_def [symmetric] s1_def [symmetric] s2_def [symmetric]
        s3_def [symmetric] e0 e1 e2 f3 setupEventLogging_def del: invoke.simps)
  define T where "T = addTrace EvRemoveListener (On BusOnRemoveListener) s2 @ [BusLogEvent LnInitialized 0]"
  have "newEventBus (invoke (Suc n)) m lg (processStart env) =
       (processStart env)\<lparr>events := [(EvError, [On BusOnError]), (EvNewListener, [On BusOnNewListener]),
                                  (EvRemoveListener, [On BusOnRemoveListener])],
         warned := addWarned EvRemoveListener s2, maxListeners := m, enableLogging := lg,
         emitWrapped := lg, trace := T\<rparr>"
    unfolding b s3 s2 s1 s0_def T_def
    by (simp add: setupEventLogging_def effect_def setListeners_def processStart_def)
  moreover have "milestones T = [] \<and> faultMarks T = []" by (simp add: T_def)
  ultimately show ?thesis by blast
qed


lemma marks_if [simp]:
  "milestones (if c then xs else ys) = (if c then milestones xs else milestones ys)"
  "faultMarks (if c then xs else ys) = (if c then faultMarks xs else faultMarks ys)"
  by simp_all

lemma quiet_simps [simp]: "quiet []" "quiet (xs @ ys) = (quiet xs \<and> quiet ys)"
  "quiet (addTrace ev r s)"
  by (auto simp: quiet_def)

lemma subscribeAll:
  assumes "listeners_of EvNewListener s = [On BusOnNewListener]" "flow s = Normal"
  shows "\<exists>W T. seq (map (\<lambda>(k, l). onTyped (invoke (Suc n)) k l) ps) s =
             s\<lparr>events := subscribed ps (events s), warned := W, trace := trace s @ T\<rparr>
           \<and> quiet T"
  using assms
proof (induction ps arbitrary: s)
  case Nil
  have "seq (map (\<lambda>(k, l). onTyped (invoke (Suc n)) k l) []) s =
      s\<lparr>events := subscribed [] (events s), warned := warned s, trace := trace s @ []\<rparr>"
    by simp
  then show ?case by (metis quiet_simps(1))
next
  case (Cons p ps)
  obtain k l where p: "p = (k, l)" by (cases p)
  define s1 where "s1 = onTyped (invoke (Suc n)) k l s"
  have e1: "s1 = s\<lparr>events := AList.update (EvApp k) (listeners_of (EvApp k) s @ [On l]) (events s),
       warned := addWarned (EvApp k) s, trace := trace s @ addTrace (EvApp k) (On l) s\<rparr>"
    unfolding s1_def by (rule onTyped_exact [OF Cons.prems])
  have f1: "flow s1 = Normal" using Cons.prems(2) by (simp add: e1)
  have n1: "listeners_of EvNewListener s1 = [On BusOnNewListener]"
    using Cons.prems(1) by (simp add: e1 listeners_of_def update_conv')
  from Cons.IH [OF n1 f1] obtain W T where
    e2: "seq (map (\<lambda>(k, l). onTyped (invoke (Suc n)) k l) ps) s1 =
        s1\<lparr>events := subscribed ps (events s1), warned := W, trace := trace s1 @ T\<rparr>"
    and q: "quiet T"
    by blast
  have "seq (map (\<lambda>(k, l). onTyped (invoke (Suc n)) k l) (p # ps)) s =
      seq (map (\<lambda>(k, l). onTyped (invoke (Suc n)) k l) ps) s1"
    using f1 by (simp add: p s1_def Let_def del: invoke.simps)
  also have "\<dots> = s\<lparr>events := subscribed (p # ps) (events s), warned := W,
      trace := trace s @ (addTrace (EvApp k) (On l) s @ T)\<rparr>"
    unfolding e2 by (simp add: e1 p listeners_of_def)
  finally show ?case using q
    by (intro exI [of _ W] exI [of _ "addTrace (EvApp k) (On l) s @ T"])
       (simp del: invoke.simps)
qed


lemma quiet_Log [simp]: "quiet (Log lv e # T) = quiet T" "quiet (TermCall c # T) = quiet T"
  by (simp_all add: quiet_def)

lemma subscribeAll_logged:
  assumes nl: "listeners_of EvNewListener s = [On BusOnNewListener]" and fl: "flow s = Normal"
  shows "\<exists>W T. seq (map (\<lambda>(k, l). onTyped (invoke (Suc n)) k l) ps @ [effect (Log lv e)]) s =
             s\<lparr>events := subscribed ps (events s), warned := W, trace := trace s @ T\<rparr>
           \<and> quiet T"
proof -
  from subscribeAll [OF nl fl, of n ps] obtain W T where
    e: "seq (map (\<lambda>(k, l). onTyped (invoke (Suc n)) k l) ps) s =
        s\<lparr>events := subscribed ps (events s), warned := W, trace := trace s @ T\<rparr>"
    and q: "quiet T"
    by blast
  have "seq (map (\<lambda>(k, l). onTyped (invoke (Suc n)) k l) ps @ [effect (Log lv e)]) s =
      s\<lparr>events := subscribed ps (events s), warned := W, trace := trace s @ (T @ [Log lv e])\<rparr>"
    unfolding seq_append [OF fl] e using fl by (simp add: effect_def Let_def)
  moreover have "quiet (T @ [Log lv e])" using q by simp
  ultimately show ?thesis by blast
qed

lemma tmSetupEventListeners_subscribes:
  "tmSetupEventListeners (invoke (Suc n)) s =
     seq (map (\<lambda>(k, l). onTyped (invoke (Suc n)) k l)
            [(AppStart, TmHandleAppStart), (AppStop, TmHandleAppStop), (TerminalExit, TmHandleExit)]
          @ [effect (Log Debug TmListenersSetUp)]) s"
  unfolding tmSetupEventListeners_def by (simp only: list.map append.simps prod.case)

lemma setupEventListeners_subscribes:
  "setupEventListeners (invoke (Suc n)) s =
     seq (map (\<lambda>(k, l). onTyped (invoke (Suc n)) k l)
            [(AppStart, AppHandleAppStart), (AppStop, AppHandleAppStop),
             (AppError, AppHandleAppError), (TerminalExit, AppHandleExit),
             (TerminalKey, AppHandleTerminalKey), (TerminalResize, AppHandleTerminalResize)]
          @ [effect (Log Debug AppListenersSetUp)]) s"
  unfolding setupEventListeners_def by (simp only: list.map append.simps prod.case)

lemma setupTerminal_exact:
  "flow s = Normal \<Longrightarrow> \<exists>T. setupTerminal s = s\<lparr>trace := trace s @ T\<rparr> \<and> quiet T"
proof -
  assume fl: "flow s = Normal"
  define T where "T = (if \<not> colors s then [TermCall NoFormat] else [])
      @ [TermCall OnResize, Log Info TmSetUp]"
  have "setupTerminal s = s\<lparr>trace := trace s @ T\<rparr>"
    using fl by (simp add: setupTerminal_def effect_def Let_def T_def)
  moreover have "quiet T" by (simp add: T_def)
  ultimately show ?thesis by blast
qed

lemma newTerminalManager_exact:
  assumes nl: "listeners_of EvNewListener s = [On BusOnNewListener]" and fl: "flow s = Normal"
  shows "\<exists>W T. newTerminalManager (invoke (Suc n)) c g s =
             s\<lparr>events := subscribed [(AppStart, TmHandleAppStart), (AppStop, TmHandleAppStop),
                                      (TerminalExit, TmHandleExit)] (events s),
               warned := W, colors := c, grabInput := g, isInitialized := False,
               isInputGrabbed := False, trace := trace s @ T\<rparr>
           \<and> quiet T"
proof -
  define s1 where "s1 = effect (Log Info TmCreated)
      (s\<lparr>colors := c, grabInput := g, isInputGrabbed := False, isInitialized := False\<rparr>)"
  have f1: "flow s1 = Normal" using fl by (simp add: s1_def)
  define s2 where "s2 = setupTerminal s1"
  from setupTerminal_exact [OF f1] obtain T2 where
    e2: "s2 = s1\<lparr>trace := trace s1 @ T2\<rparr>" and q2: "quiet T2"
    unfolding s2_def by blast
  have f2: "flow s2 = Normal" using f1 by (simp add: e2)
  have n2: "listeners_of EvNewListener s2 = [On BusOnNewListener]"
    using nl by (simp add: e2 s1_def listeners_of_def)
  from subscribeAll_logged [OF n2 f2, of n _ Debug TmListenersSetUp] obtain W T3 where
    e3: "tmSetupEventListeners (invoke (Suc n)) s2 =
        s2\<lparr>events := subscribed [(AppStart, TmHandleAppStart), (AppStop, TmHandleAppStop),
                                 (TerminalExit, TmHandleExit)] (events s2),
          warned := W, trace := trace s2 @ T3\<rparr>"
    and q3: "quiet T3"
    unfolding tmSetupEventListeners_subscribes by blast
  have "newTerminalManager (invoke (Suc n)) c g s = tmSetupEventListeners (invoke (Suc n)) s2"
    unfolding newTerminalManager_def using fl f1 f2
    by (simp add: Let_def s1_def [symmetric] s2_def [symmetric] del: invoke.simps)
  also have "\<dots> = s\<lparr>events := subscribed [(AppStart, TmHandleAppStart), (AppStop, TmHandleAppStop),
                                      (TerminalExit, TmHandleExit)] (events s),
               warned := W, colors := c, grabInput := g, isInitialized := False,
               isInputGrabbed := False, trace := trace s @ ([Log Info TmCreated] @ T2 @ T3)\<rparr>"
    unfolding e3 by (simp add: e2 s1_def effect_def)
  finally have "newTerminalManager (invoke (Suc n)) c g s =
      s\<lparr>events := subscribed [(AppStart, TmHandleAppStart), (AppStop, TmHandleAppStop),
                                      (TerminalExit, TmHandleExit)] (events s),
               warned := W, colors := c, grabInput := g, isInitialized := False,
               isInputGrabbed := False, trace := trace s @ ([Log Info TmCreated] @ T2 @ T3)\<rparr>" .
  moreover have "quiet ([Log Info TmCreated] @ T2 @ T3)" using q2 q3 by simp
  ultimately show ?thesis by blast
qed

lemma newDTraderCrypto_exact:
  assumes ev: "events s = [(EvError, [On BusOnError]), (EvNewListener, [On BusOnNewListener]),
                          (EvRemoveListener, [On BusOnRemoveListener])]"
      and fl: "flow s = Normal"
  shows "\<exists>W T. newDTraderCrypto (invoke (Suc n)) c s =
             s\<lparr>events := registrations0, warned := W, isRunning := False, colors := c,
               grabInput := True, isInitialized := False, isInputGrabbed := False,
               trace := trace s @ T\<rparr>
           \<and> quiet T"
proof -
  define s1 where "s1 = effect (Log Info AppCreated) (s\<lparr>isRunning := False\<rparr>)"
  have f1: "flow s1 = Normal" using fl by (simp add: s1_def)
  have n1: "listeners_of EvNewListener s1 = [On BusOnNewListener]"
    by (simp add: s1_def listeners_of_def ev)
  define s2 where "s2 = newTerminalManager (invoke (Suc n)) c True s1"
  from newTerminalManager_exact [OF n1 f1, of n c True] obtain W2 T2 where
    e2: "s2 = s1\<lparr>events := subscribed [(AppStart, TmHandleAppStart), (AppStop, TmHandleAppStop),
                                      (TerminalExit, TmHandleExit)] (events s1),
               warned := W2, colors := c, grabInput := True, isInitialized := False,
               isInputGrabbed := False, trace := trace s1 @ T2\<rparr>"
    and q2: "quiet T2"
    unfolding s2_def by blast
  have v1: "events s1 = events s" by (simp add: s1_def)
  have v2: "events s2 = [(EvError, [On BusOnError]), (EvNewListener, [On BusOnNewListener]),
      (EvRemoveListener, [On BusOnRemoveListener]),
      (EvApp AppStart, [On TmHandleAppStart]), (EvApp AppStop, [On TmHandleAppStop]),
      (EvApp TerminalExit, [On TmHandleExit])]"
    by (simp add: e2 v1 ev)
  have f2: "flow s2 = Normal" using f1 by (simp add: e2)
  have n2: "listeners_of EvNewListener s2 = [On BusOnNewListener]"
    by (simp add: listeners_of_def v2)
  define s3 where "s3 = setupEventListeners (invoke (Suc n)) s2"
  from subscribeAll_logged [OF n2 f2, of n _ Debug AppListenersSetUp] obtain W3 T3 where
    e3: "s3 = s2\<lparr>events := subscribed [(AppStart, AppHandleAppStart), (AppStop, AppHandleAppStop),
             (AppError, AppHandleAppError), (TerminalExit, AppHandleExit),
             (TerminalKey, AppHandleTerminalKey), (TerminalResize, AppHandleTerminalResize)]
             (events s2),
          warned := W3, trace := trace s2 @ T3\<rparr>"
    and q3: "quiet T3"
    unfolding s3_def setupEventListeners_subscribes by blast
  have v3: "events s3 = registrations0"
    by (simp add: e3 v2 registrations0_def)
  have f3: "flow s3 = Normal" using f2 by (simp add: e3)
  have "newDTraderCrypto (invoke (Suc n)) c s = effect (Log Debug AppProcessHandlersSetUp) s3"
    unfolding newDTraderCrypto_def using fl f1 f2 f3
    by (simp add: Let_def s1_def [symmetric] s2_def [symmetric] s3_def [symmetric]
        del: invoke.simps)
  also have "\<dots> = s\<lparr>events := registrations0, warned := W3, isRunning := False, colors := c,
               grabInput := True, isInitialized := False, isInputGrabbed := False,
               trace := trace s @ ([Log Info AppCreated] @ T2 @ T3 @ [Log Debug AppProcessHandlersSetUp])\<rparr>"
    unfolding e3 v2 [symmetric] using v3
    by (simp add: e3 e2 s1_def effect_def)
  finally have "newDTraderCrypto (invoke (Suc n)) c s =
      s\<lparr>events := registrations0, warned := W3, isRunning := False, colors := c,
               grabInput := True, isInitialized := False, isInputGrabbed := False,
               trace := trace s @ ([Log Info AppCreated] @ T2 @ T3 @ [Log Debug AppProcessHandlersSetUp])\<rparr>" .
  moreover have "quiet ([Log Info AppCreated] @ T2 @ T3 @ [Log Debug AppProcessHandlersSetUp])"
    using q2 q3 by simp
  ultimately show ?thesis by blast
qed

lemma constructed_idle: "idle (constructed (Suc n) env lim col)"
proof -
  define b where "b = newEventBus (invoke (Suc n)) lim (env = Some ''development'') (processStart env)"
  from newEventBus_exact [of n lim "env = Some ''development''" env] obtain W T where
    e: "b = (processStart env)\<lparr>events := [(EvError, [On BusOnError]), (EvNewListener, [On BusOnNewListener]),
                                  (EvRemoveListener, [On BusOnRemoveListener])],
         warned := W, maxListeners := lim, enableLogging := (env = Some ''development''),
         emitWrapped := (env = Some ''development''), trace := T\<rparr>"
    and q: "milestones T = []"
    unfolding b_def by blast
  have ev: "events b = [(EvError, [On BusOnError]), (EvNewListener, [On BusOnNewListener]),
                                  (EvRemoveListener, [On BusOnRemoveListener])]"
    and fl: "flow b = Normal"
    by (simp_all add: e processStart_def)
  define d where "d = newDTraderCrypto (invoke (Suc n)) col b"
  from newDTraderCrypto_exact [OF ev fl, of n col] obtain W' T' where
    e': "d = b\<lparr>events := registrations0, warned := W', isRunning := False, colors := col,
               grabInput := True, isInitialized := False, isInputGrabbed := False,
               trace := trace b @ T'\<rparr>"
    and q': "quiet T'"
    unfolding d_def by blast
  have c: "constructed (Suc n) env lim col = d"
    unfolding constructed_def using fl
    by (simp add: Let_def b_def [symmetric] d_def [symmetric] del: invoke.simps)
  show ?thesis
    unfolding c idle_def using q q'
    by (simp add: e' e processStart_def quiet_def)
qed

lemma publish_unheard:
  assumes "events s = []" "flow s = Normal"
  shows "publish call k args s =
     s\<lparr>trace := trace s @ Publish k args #
        (if emitWrapped s then [BusLogEvent (LnEvent (EvApp k)) 0] else [])\<rparr>"
  using assms by (simp add: emit_defs Let_def)

lemma idle_CallStart:
  assumes "idle s"
  shows "running (start (invoke (Suc n)) s)"
  using assms unfolding idle_def running_def
  by (cases "emitWrapped s")
     (simp_all add: start_def tryCatch_def registrations0_def emit_defs tm_defs app_defs Let_def)


lemma seq_pair: "flow (f s) = Normal \<Longrightarrow> seq [f, g] s = g (f s)"
  by (simp add: Let_def)

lemma publish_pair:
  assumes ls: "listeners_of (EvApp k) s = [On a, On b]" and fl: "flow s = Normal"
      and p: "p = (if emitWrapped s
                   then effect (BusLogEvent (LnEvent (EvApp k)) 2) (effect (Publish k args) s)
                   else effect (Publish k args) s)"
      and s1: "s1 = body (invoke n) a args (effect (Invoke a args) p)"
      and f1: "flow s1 = Normal"
      and s2: "s2 = body (invoke n) b args (effect (Invoke b args) s1)"
      and f2: "flow s2 = Normal"
  shows "publish (invoke (Suc n)) k args s = s2"
proof (cases "emitWrapped s")
  case True
  then have p': "p = effect (BusLogEvent (LnEvent (EvApp k)) 2) (effect (Publish k args) s)"
    by (simp add: p)
  show ?thesis
    using ls fl f1 f2 True unfolding s2 s1 p'
    by (simp add: publish_def emitTyped_def emit_def originalEmit_def listenerCount_def Let_def
        numeral_2_eq_2 del: body.simps)
next
  case False
  then have p': "p = effect (Publish k args) s" by (simp add: p)
  show ?thesis
    using ls fl f1 f2 False unfolding s2 s1 p'
    by (simp add: publish_def emitTyped_def emit_def originalEmit_def listenerCount_def Let_def
        numeral_2_eq_2 del: body.simps)
qed

lemma publish_TerminalExit_running:
  assumes "running s"
  shows "stopping (publish (invoke (Suc (Suc n))) TerminalExit [] s)
       \<and> faultMarks (trace (publish (invoke (Suc (Suc n))) TerminalExit [] s)) = faultMarks (trace s)
       \<and> milestones (trace (publish (invoke (Suc (Suc n))) TerminalExit [] s)) = exitPath"
proof -
  from assms have ev: "events s = registrations0" and fl: "flow s = Normal"
    and run: "isRunning s" and ini: "isInitialized s" and grab: "isInputGrabbed s"
    and tm: "timers s = []" and ms: "milestones (trace s) = []"
    unfolding running_def by simp_all
  define p where "p = (if emitWrapped s
      then effect (BusLogEvent (LnEvent (EvApp TerminalExit)) 2) (effect (Publish TerminalExit []) s)
      else effect (Publish TerminalExit []) s)"
  define u1 where "u1 = effect (Log Info TmExitSignal) (effect (Invoke TmHandleExit []) p)"
  have u1: "events u1 = registrations0" "flow u1 = Normal" "isRunning u1" "isInitialized u1"
    "isInputGrabbed u1" "timers u1 = []" "milestones (trace u1) = []"
    "faultMarks (trace u1) = faultMarks (trace s)"
    using ev fl run ini grab tm ms by (simp_all add: u1_def p_def effect_def)
  define s1 where "s1 = tmGracefulShutdown u1"
  from tmGracefulShutdown_ready [OF u1(2) u1(4)] obtain T1 where
    e1: "s1 = u1\<lparr>isInputGrabbed := False, timers := timers u1 @ [80], trace := T1\<rparr>"
    and m1: "milestones T1 = milestones (trace u1)
                 @ (if isInputGrabbed u1 then [TermGrabInput False] else []) @ [SetTimeout 80]"
    and k1: "faultMarks T1 = faultMarks (trace u1)"
    unfolding s1_def by blast
  have f1: "flow s1 = Normal" by (simp add: e1 u1)
  define u2 where "u2 = effect (Log Info AppHandlingExit) (effect (Invoke AppHandleExit []) s1)"
  have u2: "events u2 = registrations0" "flow u2 = Normal" "isRunning u2" "isInitialized u2"
    "\<not> isInputGrabbed u2" "timers u2 = [80]"
    "milestones (trace u2) = [TermGrabInput False, SetTimeout 80]"
    "faultMarks (trace u2) = faultMarks (trace s)"
    using u1 m1 k1 by (simp_all add: u2_def e1 effect_def)
  define s2 where "s2 = gracefulShutdown (invoke (Suc n)) u2"
  from gracefulShutdown_armed [OF u2(1) u2(2) u2(3) u2(4), of n] obtain T2 where
    e2: "s2 = u2\<lparr>events := [], warned := [], isRunning := False, isInputGrabbed := False,
                 timers := timers u2 @ [80], trace := T2\<rparr>"
    and m2: "milestones T2 = milestones (trace u2) @ Publish AppStop [] #
                      (if isInputGrabbed u2 then [TermGrabInput False] else [])
                      @ [SetTimeout 80, RemoveAllListeners]"
    and k2: "faultMarks T2 = faultMarks (trace u2)"
    unfolding s2_def by blast
  have f2: "flow s2 = Normal" by (simp add: e2 u2)
  have ls: "listeners_of (EvApp TerminalExit) s = [On TmHandleExit, On AppHandleExit]"
    by (simp add: listeners_of_def ev registrations0_def)
  have b1: "s1 = body (invoke (Suc n)) TmHandleExit [] (effect (Invoke TmHandleExit []) p)"
    using fl by (simp add: tmHandleExit_def s1_def u1_def p_def Let_def del: invoke.simps)
  have b2: "s2 = body (invoke (Suc n)) AppHandleExit [] (effect (Invoke AppHandleExit []) s1)"
    using f1 by (simp add: handleExit_def s2_def u2_def Let_def del: invoke.simps)
  have pub: "publish (invoke (Suc (Suc n))) TerminalExit [] s = s2"
    by (rule publish_pair [OF ls fl p_def b1 f1 b2 f2])
  show ?thesis
    unfolding pub stopping_def using u2 m2 k2
    by (simp add: e2 exitPath_def)
qed


lemma showError_exact:
  assumes "flow s = Normal"
  shows "\<exists>T. showError t s = s\<lparr>trace := trace s @ T\<rparr>
           \<and> milestones T = [] \<and> faultMarks T = [TermWrite (ErrorLine t)]"
proof -
  define T where "T = TermWrite (ErrorLine t) #
      (if environment s = ''development'' then [TermWrite ErrorDetails] else [])
      @ [Log Err TmErrorShown]"
  have "showError t s = s\<lparr>trace := trace s @ T\<rparr>"
    using assms by (simp add: showError_def effect_def Let_def T_def)
  moreover have "milestones T = [] \<and> faultMarks T = [TermWrite (ErrorLine t)]"
    by (simp add: T_def)
  ultimately show ?thesis by blast
qed

lemma faultHook_exact:
  assumes fl: "flow s = Normal"
  shows "\<exists>T. seq [effect (Log Err l), showError t, gracefulShutdown call] s =
               gracefulShutdown call (s\<lparr>trace := trace s @ T\<rparr>)
           \<and> milestones T = [] \<and> faultMarks T = [TermWrite (ErrorLine t)]"
proof -
  define s1 where "s1 = effect (Log Err l) s"
  have f1: "flow s1 = Normal" using fl by (simp add: s1_def)
  from showError_exact [OF f1, of t] obtain T where
    e: "showError t s1 = s1\<lparr>trace := trace s1 @ T\<rparr>"
    and m: "milestones T = []" and k: "faultMarks T = [TermWrite (ErrorLine t)]"
    by blast
  have f2: "flow (showError t s1) = Normal" using f1 by (simp add: e)
  have "seq [effect (Log Err l), showError t, gracefulShutdown call] s =
      gracefulShutdown call (showError t s1)"
    using f1 f2 by (simp add: Let_def s1_def)
  also have "showError t s1 = s\<lparr>trace := trace s @ (Log Err l # T)\<rparr>"
    unfolding e by (simp add: s1_def effect_def)
  finally have "seq [effect (Log Err l), showError t, gracefulShutdown call] s =
      gracefulShutdown call (s\<lparr>trace := trace s @ (Log Err l # T)\<rparr>)" .
  moreover have "milestones (Log Err l # T) = [] \<and> faultMarks (Log Err l # T) = [TermWrite (ErrorLine t)]"
    using m k by simp
  ultimately show ?thesis by blast
qed

lemma fault_unarmed:
  assumes fl: "flow s = Normal" and nr: "\<not> isRunning s"
  shows "\<exists>T. seq [effect (Log Err l), showError t, gracefulShutdown call] s =
               s\<lparr>trace := trace s @ T\<rparr>
           \<and> milestones T = [] \<and> faultMarks T = [TermWrite (ErrorLine t)]"
proof -
  from faultHook_exact [OF fl, of l t call] obtain T where
    e: "seq [effect (Log Err l), showError t, gracefulShutdown call] s =
               gracefulShutdown call (s\<lparr>trace := trace s @ T\<rparr>)"
    and m: "milestones T = []" and k: "faultMarks T = [TermWrite (ErrorLine t)]"
    by blast
  have "seq [effect (Log Err l), showError t, gracefulShutdown call] s =
      s\<lparr>trace := trace s @ (T @ [Log Warn AppAlreadyStopped])\<rparr>"
    unfolding e using nr by (simp add: gracefulShutdown_def effect_def)
  moreover have "milestones (T @ [Log Warn AppAlreadyStopped]) = []
      \<and> faultMarks (T @ [Log Warn AppAlreadyStopped]) = [TermWrite (ErrorLine t)]"
    using m k by simp
  ultimately show ?thesis by blast
qed

lemma fault_armed:
  assumes "running s"
  shows "stopping (seq [effect (Log Err l), showError t, gracefulShutdown (invoke (Suc n))] s)
       \<and> faultMarks (trace (seq [effect (Log Err l), showError t,
                                  gracefulShutdown (invoke (Suc n))] s)) =
           faultMarks (trace s) @ [TermWrite (ErrorLine t)]
       \<and> milestones (trace (seq [effect (Log Err l), showError t,
                                  gracefulShutdown (invoke (Suc n))] s)) = faultPath"
proof -
  from assms have ev: "events s = registrations0" and fl: "flow s = Normal"
    and run: "isRunning s" and ini: "isInitialized s" and grab: "isInputGrabbed s"
    and tm: "timers s = []" and ms: "milestones (trace s) = []"
    unfolding running_def by simp_all
  from faultHook_exact [OF fl, of l t "invoke (Suc n)"] obtain T where
    e: "seq [effect (Log Err l), showError t, gracefulShutdown (invoke (Suc n))] s =
               gracefulShutdown (invoke (Suc n)) (s\<lparr>trace := trace s @ T\<rparr>)"
    and m: "milestones T = []" and k: "faultMarks T = [TermWrite (ErrorLine t)]"
    by blast
  define u where "u = s\<lparr>trace := trace s @ T\<rparr>"
  have u: "events u = registrations0" "flow u = Normal" "isRunning u" "isInitialized u"
    "isInputGrabbed u" "timers u = []" "milestones (trace u) = []"
    "faultMarks (trace u) = faultMarks (trace s) @ [TermWrite (ErrorLine t)]"
    using ev fl run ini grab tm ms m k by (simp_all add: u_def)
  from gracefulShutdown_armed [OF u(1) u(2) u(3) u(4), of n] obtain T2 where
    e2: "gracefulShutdown (invoke (Suc n)) u =
           u\<lparr>events := [], warned := [], isRunning := False, isInputGrabbed := False,
                 timers := timers u @ [80], trace := T2\<rparr>"
    and m2: "milestones T2 = milestones (trace u) @ Publish AppStop [] #
                      (if isInputGrabbed u then [TermGrabInput False] else [])
                      @ [SetTimeout 80, RemoveAllListeners]"
    and k2: "faultMarks T2 = faultMarks (trace u)"
    by blast
  show ?thesis
    unfolding e u_def [symmetric] e2 stopping_def using u m2 k2
    by (simp add: faultPath_def)
qed

lemma idle_exit:
  assumes "idle s"
  shows "stopped (publish (invoke (Suc n)) TerminalExit [] s)"
  using assms unfolding idle_def stopped_def
  by (cases "emitWrapped s")
     (simp_all add: registrations0_def emit_defs tm_defs processExit_def Let_def)

lemma resize_quiet:
  assumes "events s = registrations0" "flow s = Normal"
  shows "\<exists>T. onTermResize (invoke (Suc n)) w h s = s\<lparr>trace := trace s @ T\<rparr>
           \<and> milestones T = [] \<and> faultMarks T = []"
proof -
  define T where "T = [Log Debug TmResized, Publish TerminalResize [ANum w, ANum h]]
      @ (if emitWrapped s then [BusLogEvent (LnEvent (EvApp TerminalResize)) 1] else [])
      @ [Invoke AppHandleTerminalResize [ANum w, ANum h], Log Debug AppResized]
      @ (if environment s = ''development''
         then [TermWrite (InfoLine (ResizedText w h)), Log Info TmInfoShown] else [])"
  have "onTermResize (invoke (Suc n)) w h s = s\<lparr>trace := trace s @ T\<rparr>"
    using assms
    by (simp add: onTermResize_def registrations0_def emit_defs tm_defs app_defs Let_def T_def)
  moreover have "milestones T = [] \<and> faultMarks T = []" by (simp add: T_def)
  ultimately show ?thesis by blast
qed

lemma running_CallStart:
  assumes "running s"
  shows "running (start (invoke (Suc n)) s)"
  using assms unfolding running_def
  by (cases "emitWrapped s")
     (simp_all add: start_def tryCatch_def registrations0_def emit_defs tm_defs app_defs Let_def)

lemma running_key:
  assumes "running s" "name \<noteq> ''CTRL_X''" "name \<noteq> ''CTRL_C''"
  shows "running (handleKeyPress (invoke (Suc n)) name s)"
  using assms unfolding running_def
  by (cases "emitWrapped s")
     (simp_all add: handleKeyPress_def tryCatch_def registrations0_def emit_defs tm_defs
        app_defs Let_def)


lemma shape_quiet:
  assumes "milestones T = []"
  shows "idle (s\<lparr>trace := trace s @ T\<rparr>) = idle s"
    and "running (s\<lparr>trace := trace s @ T\<rparr>) = running s"
    and "stopping (s\<lparr>trace := trace s @ T\<rparr>) = stopping s"
  using assms by (simp_all add: idle_def running_def stopping_def)

lemma shape_effect:
  assumes "\<not> isMilestone a"
  shows "idle (effect a s) = idle s" and "running (effect a s) = running s"
    and "stopping (effect a s) = stopping s"
  using assms by (simp_all add: idle_def running_def stopping_def effect_def)

lemma running_exit_key:
  assumes "running s" "name = ''CTRL_X'' \<or> name = ''CTRL_C''"
  shows "stopping (handleKeyPress (invoke (Suc (Suc n))) name s)
       \<and> milestones (trace (handleKeyPress (invoke (Suc (Suc n))) name s)) = exitPath"
proof -
  define u where "u = effect (Log Info TmExitCommand) (effect (Log Debug TmKeyPressed) s)"
  have ru: "running u" using assms(1) by (simp add: u_def shape_effect)
  have fu: "flow u = Normal" "flow (effect (Log Debug TmKeyPressed) s) = Normal"
    using assms(1) by (simp_all add: u_def running_def)
  from publish_TerminalExit_running [OF ru, of n]
  have st: "stopping (publish (invoke (Suc (Suc n))) TerminalExit [] u)"
    and mk: "milestones (trace (publish (invoke (Suc (Suc n))) TerminalExit [] u)) = exitPath"
    by simp_all
  from st have fp: "flow (publish (invoke (Suc (Suc n))) TerminalExit [] u) = Normal"
    by (simp add: stopping_def)
  have "handleKeyPress (invoke (Suc (Suc n))) name s =
      publish (invoke (Suc (Suc n))) TerminalExit [] u"
    using assms(2) fu fp
    by (auto simp add: handleKeyPress_def tryCatch_def Let_def u_def [symmetric]
        simp del: invoke.simps)
  then show ?thesis using st mk by simp
qed

lemma stopping_publish:
  assumes "stopping s" "k \<noteq> AppStop"
  shows "stopping (publish call k args s)"
proof -
  from assms(1) have ev: "events s = []" and fl: "flow s = Normal"
    by (simp_all add: stopping_def)
  have "milestones (Publish k args #
        (if emitWrapped s then [BusLogEvent (LnEvent (EvApp k)) 0] else [])) = []"
    using assms(2) by (cases k) simp_all
  then show ?thesis
    unfolding publish_unheard [OF ev fl] using assms(1) by (simp add: shape_quiet)
qed

lemma stopping_CallStart:
  assumes "stopping s"
  shows "stopping (start call s)"
proof -
  define u where "u = showInfo StartingText (effect (Log Info AppStarting) s)"
  have "u = s\<lparr>trace := trace s @ [Log Info AppStarting, TermWrite (InfoLine StartingText),
      Log Info TmInfoShown]\<rparr>"
    using assms by (simp add: u_def showInfo_def effect_def Let_def stopping_def)
  then have su: "stopping u" using assms by (simp add: shape_quiet)
  then have fu: "flow u = Normal" "flow (effect (Log Info AppStarting) s) = Normal"
    using assms by (simp_all add: stopping_def)
  have sp: "stopping (publish call AppStart [] u)" by (rule stopping_publish [OF su]) simp
  then have fp: "flow (publish call AppStart [] u) = Normal" by (simp add: stopping_def)
  have "start call s = publish call AppStart [] u"
    using fu fp by (simp add: start_def tryCatch_def Let_def u_def [symmetric])
  then show ?thesis using sp by simp
qed

lemma timer_fires:
  assumes "stopping s"
  shows "stopped (handler n TimerFires s)"
  using assms unfolding stopping_def stopped_def
  by (auto simp add: timerCallback_def processExit_def effect_def Let_def)


lemma lifecycle_shapes:
  "idle s \<Longrightarrow> lifecycle s = Idle"
  "running s \<Longrightarrow> lifecycle s = Running"
  "stopping s \<Longrightarrow> lifecycle s = Stopping"
  "stopped s \<Longrightarrow> lifecycle s = Stopped"
  by (simp_all add: lifecycle_def idle_def running_def stopping_def stopped_def)

lemma onSigint_eq:
  "flow s = Normal \<Longrightarrow>
     onSigint call s = publish call TerminalExit [] (effect (Log Warn AppSigint) s)"
  "flow s = Normal \<Longrightarrow>
     onSigterm call s = publish call TerminalExit [] (effect (Log Warn AppSigterm) s)"
  by (simp_all add: onSigint_def onSigterm_def Let_def)

lemma fault_eq:
  "handler n (UncaughtException e) s =
     seq [effect (Log Err AppUncaughtException), showError UnhandledError,
          gracefulShutdown (invoke n)] s"
  "handler n (UnhandledRejection e) s =
     seq [effect (Log Err AppUnhandledRejection), showError UnhandledPromiseRejection,
          gracefulShutdown (invoke n)] s"
  by (simp_all only: handler.simps onUncaughtException_def onUnhandledRejection_def)

lemma step_idle:
  assumes i: "idle s"
  shows "settled (step (Suc (Suc n)) x s) \<and> lifecycle (step (Suc (Suc n)) x s) = transition Idle x"
proof -
  from i have ev: "events s = registrations0" and fl: "flow s = Normal"
    and nr: "\<not> isRunning s" and ng: "\<not> isInputGrabbed s" and tm: "timers s = []"
    by (simp_all add: idle_def)
  have st: "step (Suc (Suc n)) y s = handler (Suc (Suc n)) y s" for y
    using fl by (simp add: step_def)
  have stay: "idle s' \<Longrightarrow> settled s' \<and> lifecycle s' = Idle" for s'
    by (simp add: settled_def lifecycle_shapes)
  have leave: "stopped s' \<Longrightarrow> settled s' \<and> lifecycle s' = Stopped" for s'
    by (simp add: settled_def lifecycle_shapes)
  show ?thesis
  proof (cases x)
    case CallStart
    have "running (handler (Suc (Suc n)) CallStart s)"
      using idle_CallStart [OF i, of "Suc n"] by (simp del: invoke.simps)
    then show ?thesis by (simp add: st CallStart settled_def lifecycle_shapes del: handler.simps)
  next
    case Sigint
    have "idle (effect (Log Warn AppSigint) s)" using i by (simp add: shape_effect)
    from idle_exit [OF this, of "Suc n"]
    have "stopped (handler (Suc (Suc n)) Sigint s)"
      by (simp add: onSigint_eq [OF fl] del: invoke.simps)
    then show ?thesis using leave by (simp add: st Sigint del: handler.simps)
  next
    case Sigterm
    have "idle (effect (Log Warn AppSigterm) s)" using i by (simp add: shape_effect)
    from idle_exit [OF this, of "Suc n"]
    have "stopped (handler (Suc (Suc n)) Sigterm s)"
      by (simp add: onSigint_eq [OF fl] del: invoke.simps)
    then show ?thesis using leave by (simp add: st Sigterm del: handler.simps)
  next
    case (UncaughtException e)
    from fault_unarmed [OF fl nr] obtain T where
      "handler (Suc (Suc n)) (UncaughtException e) s = s\<lparr>trace := trace s @ T\<rparr>"
      and "milestones T = []"
      unfolding fault_eq by blast
    then have "idle (handler (Suc (Suc n)) (UncaughtException e) s)"
      using i by (simp add: shape_quiet)
    then show ?thesis using stay by (simp add: st UncaughtException del: handler.simps)
  next
    case (UnhandledRejection e)
    from fault_unarmed [OF fl nr] obtain T where
      "handler (Suc (Suc n)) (UnhandledRejection e) s = s\<lparr>trace := trace s @ T\<rparr>"
      and "milestones T = []"
      unfolding fault_eq by blast
    then have "idle (handler (Suc (Suc n)) (UnhandledRejection e) s)"
      using i by (simp add: shape_quiet)
    then show ?thesis using stay by (simp add: st UnhandledRejection del: handler.simps)
  next
    case (KeyPressed name)
    have "handler (Suc (Suc n)) (KeyPressed name) s = s" using ng by simp
    then show ?thesis using stay i by (simp add: st KeyPressed del: handler.simps)
  next
    case (Resized w h)
    from resize_quiet [OF ev fl, of "Suc n" w h] obtain T where
      "handler (Suc (Suc n)) (Resized w h) s = s\<lparr>trace := trace s @ T\<rparr>"
      and "milestones T = []"
      by (auto simp del: invoke.simps)
    then have "idle (handler (Suc (Suc n)) (Resized w h) s)"
      using i by (simp add: shape_quiet)
    then show ?thesis using stay by (simp add: st Resized del: handler.simps)
  next
    case TimerFires
    have "handler (Suc (Suc n)) TimerFires s = s" using tm by simp
    then show ?thesis using stay i by (simp add: st TimerFires del: handler.simps)
  qed
qed

lemma step_running:
  assumes r: "running s"
  shows "settled (step (Suc (Suc n)) x s)
       \<and> lifecycle (step (Suc (Suc n)) x s) = transition Running x"
proof -
  from r have ev: "events s = registrations0" and fl: "flow s = Normal"
    and gr: "isInputGrabbed s" and kh: "keyHandlers s = 1" and tm: "timers s = []"
    by (simp_all add: running_def)
  have st: "step (Suc (Suc n)) y s = handler (Suc (Suc n)) y s" for y
    using fl by (simp add: step_def)
  have stay: "running s' \<Longrightarrow> settled s' \<and> lifecycle s' = Running" for s'
    by (simp add: settled_def lifecycle_shapes)
  have leave: "stopping s' \<Longrightarrow> settled s' \<and> lifecycle s' = Stopping" for s'
    by (simp add: settled_def lifecycle_shapes)
  show ?thesis
  proof (cases x)
    case CallStart
    have "running (handler (Suc (Suc n)) CallStart s)"
      using running_CallStart [OF r, of "Suc n"] by (simp del: invoke.simps)
    then show ?thesis using stay by (simp add: st CallStart del: handler.simps)
  next
    case Sigint
    have "running (effect (Log Warn AppSigint) s)" using r by (simp add: shape_effect)
    from publish_TerminalExit_running [OF this, of n]
    have "stopping (handler (Suc (Suc n)) Sigint s)"
      by (simp add: onSigint_eq [OF fl] del: invoke.simps)
    then show ?thesis using leave by (simp add: st Sigint del: handler.simps)
  next
    case Sigterm
    have "running (effect (Log Warn AppSigterm) s)" using r by (simp add: shape_effect)
    from publish_TerminalExit_running [OF this, of n]
    have "stopping (handler (Suc (Suc n)) Sigterm s)"
      by (simp add: onSigint_eq [OF fl] del: invoke.simps)
    then show ?thesis using leave by (simp add: st Sigterm del: handler.simps)
  next
    case (UncaughtException e)
    from fault_armed [OF r, of _ _ "Suc n"]
    have "stopping (handler (Suc (Suc n)) (UncaughtException e) s)"
      unfolding fault_eq by blast
    then show ?thesis using leave by (simp add: st UncaughtException del: handler.simps)
  next
    case (UnhandledRejection e)
    from fault_armed [OF r, of _ _ "Suc n"]
    have "stopping (handler (Suc (Suc n)) (UnhandledRejection e) s)"
      unfolding fault_eq by blast
    then show ?thesis using leave by (simp add: st UnhandledRejection del: handler.simps)
  next
    case (KeyPressed name)
    have h: "handler (Suc (Suc n)) (KeyPressed name) s =
        handleKeyPress (invoke (Suc (Suc n))) name s"
      using gr kh by (simp add: Let_def del: invoke.simps)
    show ?thesis
    proof (cases "name = ''CTRL_X'' \<or> name = ''CTRL_C''")
      case True
      from running_exit_key [OF r True, of n]
      show ?thesis using leave True by (simp add: st KeyPressed h del: handler.simps)
    next
      case False
      then have "running (handleKeyPress (invoke (Suc (Suc n))) name s)"
        using running_key [OF r, of name "Suc n"] by blast
      then show ?thesis using stay False by (simp add: st KeyPressed h del: handler.simps)
    qed
  next
    case (Resized w h)
    from resize_quiet [OF ev fl, of "Suc n" w h] obtain T where
      "handler (Suc (Suc n)) (Resized w h) s = s\<lparr>trace := trace s @ T\<rparr>"
      and "milestones T = []"
      by (auto simp del: invoke.simps)
    then have "running (handler (Suc (Suc n)) (Resized w h) s)"
      using r by (simp add: shape_quiet)
    then show ?thesis using stay by (simp add: st Resized del: handler.simps)
  next
    case TimerFires
    have "handler (Suc (Suc n)) TimerFires s = s" using tm by simp
    then show ?thesis using stay r by (simp add: st TimerFires del: handler.simps)
  qed
qed


lemma step_stopping:
  assumes p: "stopping s"
  shows "settled (step (Suc (Suc n)) x s)
       \<and> lifecycle (step (Suc (Suc n)) x s) = transition Stopping x"
proof -
  from p have ev: "events s = []" and fl: "flow s = Normal"
    and nr: "\<not> isRunning s" and ng: "\<not> isInputGrabbed s"
    by (simp_all add: stopping_def)
  have st: "step (Suc (Suc n)) y s = handler (Suc (Suc n)) y s" for y
    using fl by (simp add: step_def)
  have stay: "stopping s' \<Longrightarrow> settled s' \<and> lifecycle s' = Stopping" for s'
    by (simp add: settled_def lifecycle_shapes)
  have leave: "stopped s' \<Longrightarrow> settled s' \<and> lifecycle s' = Stopped" for s'
    by (simp add: settled_def lifecycle_shapes)
  show ?thesis
  proof (cases x)
    case CallStart
    have "stopping (handler (Suc (Suc n)) CallStart s)"
      using stopping_CallStart [OF p] by (simp del: invoke.simps)
    then show ?thesis using stay by (simp add: st CallStart del: handler.simps)
  next
    case Sigint
    have "stopping (effect (Log Warn AppSigint) s)" using p by (simp add: shape_effect)
    from stopping_publish [OF this, of TerminalExit]
    have "stopping (handler (Suc (Suc n)) Sigint s)"
      by (simp add: onSigint_eq [OF fl] del: invoke.simps)
    then show ?thesis using stay by (simp add: st Sigint del: handler.simps)
  next
    case Sigterm
    have "stopping (effect (Log Warn AppSigterm) s)" using p by (simp add: shape_effect)
    from stopping_publish [OF this, of TerminalExit]
    have "stopping (handler (Suc (Suc n)) Sigterm s)"
      by (simp add: onSigint_eq [OF fl] del: invoke.simps)
    then show ?thesis using stay by (simp add: st Sigterm del: handler.simps)
  next
    case (UncaughtException e)
    from fault_unarmed [OF fl nr] obtain T where
      "handler (Suc (Suc n)) (UncaughtException e) s = s\<lparr>trace := trace s @ T\<rparr>"
      and "milestones T = []"
      unfolding fault_eq by blast
    then have "stopping (handler (Suc (Suc n)) (UncaughtException e) s)"
      using p by (simp add: shape_quiet)
    then show ?thesis using stay by (simp add: st UncaughtException del: handler.simps)
  next
    case (UnhandledRejection e)
    from fault_unarmed [OF fl nr] obtain T where
      "handler (Suc (Suc n)) (UnhandledRejection e) s = s\<lparr>trace := trace s @ T\<rparr>"
      and "milestones T = []"
      unfolding fault_eq by blast
    then have "stopping (handler (Suc (Suc n)) (UnhandledRejection e) s)"
      using p by (simp add: shape_quiet)
    then show ?thesis using stay by (simp add: st UnhandledRejection del: handler.simps)
  next
    case (KeyPressed name)
    have "handler (Suc (Suc n)) (KeyPressed name) s = s" using ng by simp
    then show ?thesis using stay p by (simp add: st KeyPressed del: handler.simps)
  next
    case (Resized w h)
    have "stopping (effect (Log Debug TmResized) s)" using p by (simp add: shape_effect)
    from stopping_publish [OF this, of TerminalResize]
    have "stopping (handler (Suc (Suc n)) (Resized w h) s)"
      using fl by (simp add: onTermResize_def Let_def del: invoke.simps)
    then show ?thesis using stay by (simp add: st Resized del: handler.simps)
  next
    case TimerFires
    from timer_fires [OF p, of "Suc (Suc n)"]
    show ?thesis using leave by (simp add: st TimerFires del: handler.simps)
  qed
qed

lemma step_stopped:
  assumes "stopped s"
  shows "settled (step n x s) \<and> lifecycle (step n x s) = transition Stopped x"
  using assms by (simp add: step_def stopped_def settled_def lifecycle_def)

lemma step_settled:
  assumes "settled s"
  shows "settled (step (Suc (Suc n)) x s)
       \<and> lifecycle (step (Suc (Suc n)) x s) = transition (lifecycle s) x"
  using assms step_idle [of s n x] step_running [of s n x] step_stopping [of s n x]
    step_stopped [of s "Suc (Suc n)" x]
  unfolding settled_def by (auto simp add: lifecycle_shapes)

lemma session_snoc:
  "session n env lim col (xs @ [x]) = step n x (session n env lim col xs)"
  by (simp add: session_def run_def)

lemma session_Nil: "session n env lim col [] = constructed n env lim col"
  by (simp add: session_def run_def)

lemma session_settled: "settled (session (Suc (Suc n)) env lim col xs)"
proof (induction xs rule: rev_induct)
  case Nil
  show ?case unfolding session_Nil settled_def using constructed_idle [of "Suc n" env lim col]
    by blast
next
  case (snoc x xs)
  show ?case unfolding session_snoc using step_settled [OF snoc] by blast
qed





lemma settled_marks:
  assumes "settled s"
  shows "milestones (trace s) \<in> {[], faultPath, exitPath, [ProcessExit 0],
           faultPath @ [ProcessExit 0], exitPath @ [ProcessExit 0]}"
  using assms unfolding settled_def idle_def running_def stopping_def stopped_def by auto



lemma shutdownActions_milestones: "shutdownActions tr = shutdownActions (milestones tr)"
proof -
  have "isShutdownAction a \<Longrightarrow> isMilestone a" for a
    by (cases a rule: isShutdownAction.cases) simp_all
  then have "filter isShutdownAction tr = filter (\<lambda>a. isMilestone a \<and> isShutdownAction a) tr"
    by (intro filter_cong) auto
  then show ?thesis by (simp add: shutdownActions_def milestones_def)
qed



lemma shutdownActions_Log [simp]:
  "shutdownActions (tr @ [Log lv e]) = shutdownActions tr"
  by (simp add: shutdownActions_def)

lemma gracefulShutdown_disarms:
  assumes se: "settled s" and fl: "flow s = Normal"
  shows "\<not> isRunning (gracefulShutdown (invoke (Suc n)) s)
       \<and> flow (gracefulShutdown (invoke (Suc n)) s) = Normal"
proof (cases "running s")
  case True
  then have "events s = registrations0" "isRunning s" "isInitialized s"
    by (simp_all add: running_def)
  from gracefulShutdown_armed [OF this(1) fl this(2) this(3), of n] obtain T where
    "gracefulShutdown (invoke (Suc n)) s =
       s\<lparr>events := [], warned := [], isRunning := False, isInputGrabbed := False,
         timers := timers s @ [80], trace := T\<rparr>"
    by blast
  then show ?thesis using fl by simp
next
  case False
  then have "\<not> isRunning s" using se fl
    by (auto simp add: settled_def idle_def stopping_def stopped_def)
  then show ?thesis using fl by (simp add: gracefulShutdown_def effect_def)
qed

text \<open>
  C3. In a live process, a call of \<open>gracefulShutdown\<close> that follows another one only
  logs a warning: it completes normally, releases no input, resets no bus and exits
  nothing. Over the whole life of a process, whatever arrives and however often, input
  is released at most once, the bus is reset at most once and the process exits at most
  once.
\<close>

theorem C3_second_shutdown_is_a_no_op:
  "(let s = session (Suc (Suc n)) env lim col xs;
        first = gracefulShutdown (invoke (Suc n)) s;
        second = gracefulShutdown (invoke (Suc n)) first
    in (flow s = Normal \<longrightarrow>
          second = effect (Log Warn AppAlreadyStopped) first
        \<and> flow second = Normal
        \<and> shutdownActions (trace second) = shutdownActions (trace first))
     \<and> shutdownActions (trace s) \<in>
         {[], [ProcessExit 0], [TermGrabInput False, RemoveAllListeners],
          [TermGrabInput False, RemoveAllListeners, ProcessExit 0]})"
proof -
  define s where "s = session (Suc (Suc n)) env lim col xs"
  define first where "first = gracefulShutdown (invoke (Suc n)) s"
  have se: "settled s" unfolding s_def by (rule session_settled)
  have once: "shutdownActions (trace s) \<in>
         {[], [ProcessExit 0], [TermGrabInput False, RemoveAllListeners],
          [TermGrabInput False, RemoveAllListeners, ProcessExit 0]}"
    using settled_marks [OF se] unfolding shutdownActions_milestones [of "trace s"]
    by (auto simp add: shutdownActions_def faultPath_def exitPath_def)
  have again: "gracefulShutdown (invoke (Suc n)) first = effect (Log Warn AppAlreadyStopped) first
      \<and> flow (gracefulShutdown (invoke (Suc n)) first) = Normal
      \<and> shutdownActions (trace (gracefulShutdown (invoke (Suc n)) first)) =
          shutdownActions (trace first)"
    if fl: "flow s = Normal"
  proof -
    from gracefulShutdown_disarms [OF se fl, of n]
    have "\<not> isRunning first" "flow first = Normal" by (simp_all add: first_def)
    then show ?thesis by (simp add: gracefulShutdown_def)
  qed
  show ?thesis
    unfolding Let_def s_def [symmetric] first_def [symmetric] using once again by blast
qed

theorem C3_witness:
  "flow (session (Suc (Suc 0)) None 50 True [CallStart]) = Normal
   \<and> shutdownActions (trace (gracefulShutdown (invoke (Suc 0))
        (session (Suc (Suc 0)) None 50 True [CallStart]))) =
       [TermGrabInput False, RemoveAllListeners]
   \<and> gracefulShutdown (invoke (Suc 0))
        (gracefulShutdown (invoke (Suc 0)) (session (Suc (Suc 0)) None 50 True [CallStart])) =
       effect (Log Warn AppAlreadyStopped)
        (gracefulShutdown (invoke (Suc 0)) (session (Suc (Suc 0)) None 50 True [CallStart]))
   \<and> shutdownActions (trace (gracefulShutdown (invoke (Suc 0))
        (gracefulShutdown (invoke (Suc 0)) (session (Suc (Suc 0)) None 50 True [CallStart])))) =
       [TermGrabInput False, RemoveAllListeners]"
proof -
  have h: "flow (session (Suc (Suc 0)) None 50 True [CallStart]) = Normal"
    by code_simp
  have k: "shutdownActions (trace (gracefulShutdown (invoke (Suc 0))
        (session (Suc (Suc 0)) None 50 True [CallStart]))) =
       [TermGrabInput False, RemoveAllListeners]"
    by code_simp
  from C3_second_shutdown_is_a_no_op [of 0 None 50 True "[CallStart]"] h k
  show ?thesis unfolding Let_def by (simp del: invoke.simps)
qed












lemma performAll_snoc: "performAll (ops @ [op]) h = perform op (performAll ops h)"
  by (simp add: performAll_def)

lemma properties_heap:
  "properties i (h\<lparr>heap := H\<rparr>) =
     (if i < length H then (case H ! i of Plain ps \<Rightarrow> ps | DateOf t \<Rightarrow> []) else [])"
  "properties i (h\<lparr>handles := X\<rparr>) = properties i h"
  by (simp_all add: properties_def)

lemma sealed_new: "sealed (newObjects v e i t) (newObjects v e i t)"
  by (auto simp add: sealed_def newObjects_def properties_def less_Suc_eq numeral_3_eq_3
      split: if_splits)

lemma sealed_spread:
  assumes s: "sealed h0 h" and r: "r = 0 \<or> r = 2"
  shows "sealed h0 ((snd (spread r h))\<lparr>handles := handles h @ [fst (spread r h)]\<rparr>)"
proof -
  have len: "3 \<le> length (heap h)" using s by (simp add: sealed_def)
  have old: "\<And>i p q. i < length (heap h) \<Longrightarrow> map_of (properties i h) p = Some (JRef q) \<Longrightarrow>
      q < length (heap h) \<and> q \<noteq> 0 \<and> q \<noteq> 2"
    using s unfolding sealed_def by blast
  have rl: "r < length (heap h)" using r len by auto
  have new: "map_of (properties r h) p = Some (JRef q) \<Longrightarrow>
      q < Suc (length (heap h)) \<and> q \<noteq> 0 \<and> q \<noteq> 2" for p q
    using old [OF rl, of p q] by auto
  have pr: "properties i ((snd (spread r h))\<lparr>handles := handles h @ [fst (spread r h)]\<rparr>) =
      (if i < length (heap h) then properties i h
       else if i = length (heap h) then properties r h else [])" for i
    by (auto simp add: spread_def properties_def nth_append)
  show ?thesis
    unfolding sealed_def pr
    using s len new old
    by (auto simp add: sealed_def spread_def nth_append less_Suc_eq)
qed


lemma sealed_write:
  assumes s: "sealed h0 h" and r: "r \<in> set (handles h)" and pl: "heap h ! r = Plain ps"
      and v: "\<And>p q. map_of ps' p = Some (JRef q) \<Longrightarrow>
                q < length (heap h) \<and> q \<noteq> 0 \<and> q \<noteq> 2"
  shows "sealed h0 (h\<lparr>heap := (heap h)[r := Plain ps']\<rparr>)"
proof -
  have len: "3 \<le> length (heap h)" using s by (simp add: sealed_def)
  have rr: "r < length (heap h)" "r \<noteq> 0" "r \<noteq> 2" using s r by (auto simp add: sealed_def)
  obtain t where d: "heap h ! 1 = DateOf t" using s unfolding sealed_def by blast
  have r1: "r \<noteq> 1" using pl d by auto
  have old: "\<And>i p q. i < length (heap h) \<Longrightarrow> map_of (properties i h) p = Some (JRef q) \<Longrightarrow>
      q < length (heap h) \<and> q \<noteq> 0 \<and> q \<noteq> 2"
    using s unfolding sealed_def by blast
  have pr: "properties i (h\<lparr>heap := (heap h)[r := Plain ps']\<rparr>) =
      (if i = r then ps' else properties i h)" for i
    using rr by (auto simp add: properties_def)
  show ?thesis
    unfolding sealed_def pr
    using s len rr r1 d v old
    by (auto simp add: sealed_def)
qed

lemma sealed_assign:
  assumes s: "sealed h0 h" and r: "r \<in> set (handles h)"
      and v: "\<And>q. v = JRef q \<Longrightarrow> q < length (heap h) \<and> q \<noteq> 0 \<and> q \<noteq> 2"
  shows "sealed h0 (assign r p v h)"
proof (cases "heap h ! r")
  case (Plain ps)
  have rr: "r < length (heap h)" using s r by (auto simp add: sealed_def)
  have old: "\<And>p' q. map_of ps p' = Some (JRef q) \<Longrightarrow> q < length (heap h) \<and> q \<noteq> 0 \<and> q \<noteq> 2"
    using s rr Plain unfolding sealed_def properties_def by (metis jsObject.simps(5))
  have "map_of (AList.update p v ps) p' = Some (JRef q) \<Longrightarrow>
      q < length (heap h) \<and> q \<noteq> 0 \<and> q \<noteq> 2" for p' q
    using old [of p' q] v [of q] by (auto simp add: update_conv' split: if_splits)
  from sealed_write [OF s r Plain this]
  show ?thesis using rr Plain by (simp add: assign_def)
next
  case (DateOf t)
  then show ?thesis using s by (simp add: assign_def)
qed

lemma sealed_delete:
  assumes s: "sealed h0 h" and r: "r \<in> set (handles h)"
  shows "sealed h0 (deleteProperty r p h)"
proof (cases "heap h ! r")
  case (Plain ps)
  have rr: "r < length (heap h)" using s r by (auto simp add: sealed_def)
  have old: "\<And>p' q. map_of ps p' = Some (JRef q) \<Longrightarrow> q < length (heap h) \<and> q \<noteq> 0 \<and> q \<noteq> 2"
    using s rr Plain unfolding sealed_def properties_def by (metis jsObject.simps(5))
  have "map_of (AList.delete p ps) p' = Some (JRef q) \<Longrightarrow>
      q < length (heap h) \<and> q \<noteq> 0 \<and> q \<noteq> 2" for p' q
    using old [of p' q] by (auto simp add: delete_conv' split: if_splits)
  from sealed_write [OF s r Plain this]
  show ?thesis using rr Plain by (simp add: deleteProperty_def)
next
  case (DateOf t)
  then show ?thesis using s by (simp add: deleteProperty_def)
qed

lemma sealed_setTime:
  assumes s: "sealed h0 h" and r: "r \<in> set (handles h)"
  shows "sealed h0 (setTime r t h)"
proof (cases "heap h ! r")
  case (Plain ps)
  then show ?thesis using s by (simp add: setTime_def)
next
  case (DateOf t')
  have rr: "r < length (heap h)" "r \<noteq> 0" "r \<noteq> 2" using s r by (auto simp add: sealed_def)
  have pr: "properties i (h\<lparr>heap := (heap h)[r := DateOf t]\<rparr>) = properties i h" for i
    using rr DateOf by (cases "i = r") (auto simp add: properties_def)
  have "sealed h0 (h\<lparr>heap := (heap h)[r := DateOf t]\<rparr>)"
    unfolding sealed_def pr using s rr
    by (auto simp add: sealed_def nth_list_update)
  then show ?thesis using rr DateOf by (simp add: setTime_def)
qed

lemma sealed_perform:
  assumes s: "sealed h0 h"
  shows "sealed h0 (perform op h)"
proof (cases op)
  case CallGetConfig
  have "config h = 0" using s by (simp add: sealed_def)
  then show ?thesis
    using sealed_spread [OF s, where r=0] by (simp add: CallGetConfig getConfig_def split_beta spread_def)
next
  case CallGetSessionInfo
  have "sessionInfo h = 2" using s by (simp add: sealed_def)
  then show ?thesis
    using sealed_spread [OF s, where r=2]
    by (simp add: CallGetSessionInfo getSessionInfo_def split_beta spread_def)
next
  case (Assign i p v)
  show ?thesis
  proof (cases "i < length (handles h)")
    case True
    have "\<And>q. valueOf v h = JRef q \<Longrightarrow> q < length (heap h) \<and> q \<noteq> 0 \<and> q \<noteq> 2"
      using s by (cases v) (auto simp add: sealed_def split: if_splits)
    from sealed_assign [OF s _ this, where r="handles h ! i" and p=p] True
    show ?thesis by (simp add: Assign)
  next
    case False
    then show ?thesis using s by (simp add: Assign)
  qed
next
  case (Delete i p)
  show ?thesis using s sealed_delete [OF s, where r="handles h ! i" and p=p] by (simp add: Delete)
next
  case (Read i p)
  show ?thesis
  proof (cases "i < length (handles h)")
    case True
    then have rr: "handles h ! i < length (heap h)" using s by (auto simp add: sealed_def)
    have new: "map_of (properties (handles h ! i) h) p = Some (JRef q) \<Longrightarrow>
        q < length (heap h) \<and> q \<noteq> 0 \<and> q \<noteq> 2" for q
      using s rr unfolding sealed_def by blast
    have "sealed h0 (h\<lparr>handles := handles h @ [q]\<rparr>)"
      if "map_of (properties (handles h ! i) h) p = Some (JRef q)" for q
      using s new [OF that] by (auto simp add: sealed_def properties_heap)
    then show ?thesis using s True
      by (auto simp add: Read split: option.split jsValue.split)
  next
    case False
    then show ?thesis using s by (simp add: Read)
  qed
next
  case (SetTime i t)
  show ?thesis using s sealed_setTime [OF s, where r="handles h ! i" and t=t] by (simp add: SetTime)
qed

lemma sealed_performAll: "sealed (newObjects v e i t) (performAll ops (newObjects v e i t))"
proof (induction ops rule: rev_induct)
  case Nil
  show ?case by (simp add: performAll_def sealed_new)
next
  case (snoc op ops)
  show ?case unfolding performAll_snoc by (rule sealed_perform [OF snoc])
qed

lemma date_perform:
  assumes s: "sealed h0 h" and n: "\<not> isSetTime op"
  shows "heap (perform op h) ! 1 = heap h ! 1"
proof -
  have len: "3 \<le> length (heap h)" using s by (simp add: sealed_def)
  obtain t where d: "heap h ! 1 = DateOf t" using s unfolding sealed_def by blast
  show ?thesis
  proof (cases op)
    case CallGetConfig
    then show ?thesis using len
      by (simp add: getConfig_def spread_def nth_append)
  next
    case CallGetSessionInfo
    then show ?thesis using len
      by (simp add: getSessionInfo_def spread_def nth_append)
  next
    case (Assign i p v)
    then show ?thesis using d
      by (auto simp add: assign_def nth_list_update split: jsObject.split)
  next
    case (Delete i p)
    then show ?thesis using d
      by (auto simp add: deleteProperty_def nth_list_update split: jsObject.split)
  next
    case (Read i p)
    then show ?thesis by (auto split: option.split jsValue.split)
  next
    case (SetTime i t)
    then show ?thesis using n by simp
  qed
qed

lemma date_performAll:
  "list_all (\<lambda>op. \<not> isSetTime op) ops \<Longrightarrow>
     heap (performAll ops (newObjects v e i t)) ! 1 = DateOf t"
proof (induction ops rule: rev_induct)
  case Nil
  show ?case by (simp add: performAll_def newObjects_def)
next
  case (snoc op ops)
  then have a: "heap (performAll ops (newObjects v e i t)) ! 1 = DateOf t" and n: "\<not> isSetTime op"
    by simp_all
  show ?case
    unfolding performAll_snoc date_perform [OF sealed_performAll n] by (rule a)
qed


text \<open>
  C9, as the code has it. \<open>getConfig()\<close> and \<open>getSessionInfo()\<close> return new records
  that are copies one level deep. Whatever a caller does with what the accessors
  return (calling them again, writing, deleting and reading properties, calling
  \<open>setTime\<close> on a \<open>Date\<close> it has read), it never holds \<open>config\<close> or \<open>sessionInfo\<close>
  themselves, these two keep their properties, and the next call of either accessor
  returns a record, different from every one held before, with the property values
  the constructors gave: for \<open>getConfig\<close> three strings, for \<open>getSessionInfo\<close> three
  strings and the reference to the one \<open>Date\<close> of \<open>startTime\<close>. That \<open>Date\<close> is shared
  with every record returned: it keeps the time of its construction as long as the
  caller calls no \<open>setTime\<close>.
\<close>

theorem C9_accessors_return_one_level_copies:
  "(let h0 = newObjects npmVersion nodeEnv sessionId now;
        h = performAll ops h0
    in config h = config h0 \<and> sessionInfo h = sessionInfo h0
     \<and> config h \<notin> set (handles h) \<and> sessionInfo h \<notin> set (handles h)
     \<and> properties (config h) h = properties (config h0) h0
     \<and> properties (sessionInfo h) h = properties (sessionInfo h0) h0
     \<and> properties (fst (getConfig h)) (snd (getConfig h)) =
         [(''name'', JString ''dtrader-crypto 2.0''),
          (''version'', JString (orDefault npmVersion ''2.0.0'')),
          (''environment'', JString (orDefault nodeEnv ''development''))]
     \<and> properties (fst (getSessionInfo h)) (snd (getSessionInfo h)) =
         [(''id'', JString sessionId),
          (''startTime'', JRef 1),
          (''version'', JString (orDefault npmVersion ''2.0.0'')),
          (''environment'', JString (orDefault nodeEnv ''development''))]
     \<and> fst (getConfig h) \<notin> set (config h # sessionInfo h # handles h)
     \<and> fst (getSessionInfo h) \<notin> set (config h # sessionInfo h # handles h)
     \<and> (\<exists>t. getTime 1 h = Some t)
     \<and> (list_all (\<lambda>op. \<not> isSetTime op) ops \<longrightarrow> getTime 1 h = Some now))"
proof -
  define h0 where "h0 = newObjects npmVersion nodeEnv sessionId now"
  define h where "h = performAll ops h0"
  have se: "sealed h0 h" unfolding h_def h0_def by (rule sealed_performAll)
  then have c: "config h = 0" and s: "sessionInfo h = 2" and len: "3 \<le> length (heap h)"
    and a0: "heap h ! 0 = heap h0 ! 0" and a2: "heap h ! 2 = heap h0 ! 2"
    and hd: "\<forall>r\<in>set (handles h). r < length (heap h) \<and> r \<noteq> 0 \<and> r \<noteq> 2"
    by (simp_all add: sealed_def)
  obtain t where d: "heap h ! Suc 0 = DateOf t" using se unfolding sealed_def by auto
  have h0: "config h0 = 0" "sessionInfo h0 = 2"
    "heap h0 ! 0 = Plain [(''name'', JString ''dtrader-crypto 2.0''),
          (''version'', JString (orDefault npmVersion ''2.0.0'')),
          (''environment'', JString (orDefault nodeEnv ''development''))]"
    "heap h0 ! 2 = Plain [(''id'', JString sessionId),
          (''startTime'', JRef 1),
          (''version'', JString (orDefault npmVersion ''2.0.0'')),
          (''environment'', JString (orDefault nodeEnv ''development''))]"
    "length (heap h0) = 3"
    by (simp_all add: h0_def newObjects_def)
  have fresh: "length (heap h) \<notin> set (handles h)" "0 \<notin> set (handles h)" "2 \<notin> set (handles h)"
    using hd by auto
  have ne: "heap h \<noteq> []" "Suc 0 < length (heap h)" "0 < length (heap h)" "2 < length (heap h)"
    using len by auto
  have keep: "list_all (\<lambda>op. \<not> isSetTime op) ops \<longrightarrow> getTime 1 h = Some now"
    using date_performAll [of ops npmVersion nodeEnv sessionId now] ne
    by (auto simp add: getTime_def h_def h0_def)
  have "config h = config h0 \<and> sessionInfo h = sessionInfo h0
     \<and> config h \<notin> set (handles h) \<and> sessionInfo h \<notin> set (handles h)
     \<and> properties (config h) h = properties (config h0) h0
     \<and> properties (sessionInfo h) h = properties (sessionInfo h0) h0
     \<and> properties (fst (getConfig h)) (snd (getConfig h)) =
         [(''name'', JString ''dtrader-crypto 2.0''),
          (''version'', JString (orDefault npmVersion ''2.0.0'')),
          (''environment'', JString (orDefault nodeEnv ''development''))]
     \<and> properties (fst (getSessionInfo h)) (snd (getSessionInfo h)) =
         [(''id'', JString sessionId),
          (''startTime'', JRef 1),
          (''version'', JString (orDefault npmVersion ''2.0.0'')),
          (''environment'', JString (orDefault nodeEnv ''development''))]
     \<and> fst (getConfig h) \<notin> set (config h # sessionInfo h # handles h)
     \<and> fst (getSessionInfo h) \<notin> set (config h # sessionInfo h # handles h)
     \<and> (\<exists>t. getTime 1 h = Some t)"
    using len ne fresh a0 a2 d
    by (simp add: c s h0 properties_def getTime_def getConfig_def getSessionInfo_def spread_def
        nth_append)
  then show ?thesis unfolding Let_def h0_def [symmetric] h_def [symmetric] using keep by blast
qed

theorem C9_witness:
  "list_all (\<lambda>op. \<not> isSetTime op)
     [CallGetSessionInfo, Assign 0 ''id'' (OString ''X''), Delete 0 ''version'',
      Read 0 ''startTime'', Assign 0 ''startTime'' (OHeld 0), CallGetConfig,
      Assign 2 ''name'' OUndefined]
   \<and> properties 3 (performAll
        [CallGetSessionInfo, Assign 0 ''id'' (OString ''X''), Delete 0 ''version'',
         Read 0 ''startTime'', Assign 0 ''startTime'' (OHeld 0), CallGetConfig,
         Assign 2 ''name'' OUndefined]
        (newObjects None None ''A1B2C3D4'' 1700000000000)) =
       [(''id'', JString ''X''), (''startTime'', JRef 3),
        (''environment'', JString ''development'')]
   \<and> properties 4 (performAll
        [CallGetSessionInfo, Assign 0 ''id'' (OString ''X''), Delete 0 ''version'',
         Read 0 ''startTime'', Assign 0 ''startTime'' (OHeld 0), CallGetConfig,
         Assign 2 ''name'' OUndefined]
        (newObjects None None ''A1B2C3D4'' 1700000000000)) =
       [(''name'', JUndefined), (''version'', JString ''2.0.0''),
        (''environment'', JString ''development'')]
   \<and> properties (fst (getSessionInfo (performAll
        [CallGetSessionInfo, Assign 0 ''id'' (OString ''X''), Delete 0 ''version'',
         Read 0 ''startTime'', Assign 0 ''startTime'' (OHeld 0), CallGetConfig,
         Assign 2 ''name'' OUndefined]
        (newObjects None None ''A1B2C3D4'' 1700000000000))))
      (snd (getSessionInfo (performAll
        [CallGetSessionInfo, Assign 0 ''id'' (OString ''X''), Delete 0 ''version'',
         Read 0 ''startTime'', Assign 0 ''startTime'' (OHeld 0), CallGetConfig,
         Assign 2 ''name'' OUndefined]
        (newObjects None None ''A1B2C3D4'' 1700000000000)))) =
       [(''id'', JString ''A1B2C3D4''), (''startTime'', JRef 1),
        (''version'', JString ''2.0.0''), (''environment'', JString ''development'')]
   \<and> getTime 1 (performAll
        [CallGetSessionInfo, Assign 0 ''id'' (OString ''X''), Delete 0 ''version'',
         Read 0 ''startTime'', Assign 0 ''startTime'' (OHeld 0), CallGetConfig,
         Assign 2 ''name'' OUndefined]
        (newObjects None None ''A1B2C3D4'' 1700000000000)) = Some 1700000000000"
proof -
  define ops where "ops = [CallGetSessionInfo, Assign 0 ''id'' (OString ''X''),
      Delete 0 ''version'', Read 0 ''startTime'', Assign 0 ''startTime'' (OHeld 0),
      CallGetConfig, Assign 2 ''name'' OUndefined]"
  have n: "list_all (\<lambda>op. \<not> isSetTime op) ops" unfolding ops_def by simp
  have a: "properties 3 (performAll ops (newObjects None None ''A1B2C3D4'' 1700000000000)) =
       [(''id'', JString ''X''), (''startTime'', JRef 3),
        (''environment'', JString ''development'')]"
    unfolding ops_def by code_simp
  have b: "properties 4 (performAll ops (newObjects None None ''A1B2C3D4'' 1700000000000)) =
       [(''name'', JUndefined), (''version'', JString ''2.0.0''),
        (''environment'', JString ''development'')]"
    unfolding ops_def by code_simp
  have d: "orDefault None ''2.0.0'' = ''2.0.0''" "orDefault None ''development'' = ''development''"
    by (simp_all add: orDefault_def)
  note t = C9_accessors_return_one_level_copies
      [of None None "''A1B2C3D4''" 1700000000000 ops, unfolded Let_def d]
  show ?thesis unfolding ops_def [symmetric] using t n a b by blast
qed

text \<open>
  Against C9 as stated: a caller takes a session record, reads its \<open>startTime\<close> and
  calls \<open>setTime(0)\<close> on it; the \<open>Date\<close> of the descriptor now has the time 0, and so
  has the \<open>startTime\<close> of the record the next \<open>getSessionInfo()\<close> returns.
\<close>

theorem C9_counterexample:
  "map_of (properties (sessionInfo (newObjects None None ''A1B2C3D4'' 1700000000000))
      (newObjects None None ''A1B2C3D4'' 1700000000000)) ''startTime'' = Some (JRef 1)
   \<and> getTime 1 (newObjects None None ''A1B2C3D4'' 1700000000000) = Some 1700000000000
   \<and> handles (performAll [CallGetSessionInfo, Read 0 ''startTime'', SetTime 1 0]
        (newObjects None None ''A1B2C3D4'' 1700000000000)) = [3, 1]
   \<and> getTime 1 (performAll [CallGetSessionInfo, Read 0 ''startTime'', SetTime 1 0]
        (newObjects None None ''A1B2C3D4'' 1700000000000)) = Some 0
   \<and> map_of (properties
        (fst (getSessionInfo (performAll [CallGetSessionInfo, Read 0 ''startTime'', SetTime 1 0]
          (newObjects None None ''A1B2C3D4'' 1700000000000))))
        (snd (getSessionInfo (performAll [CallGetSessionInfo, Read 0 ''startTime'', SetTime 1 0]
          (newObjects None None ''A1B2C3D4'' 1700000000000))))) ''startTime'' = Some (JRef 1)"
  by code_simp

end
